theory Spec2Isabelle
  imports Complex_Main "HOL-Library.Log_Nat"
begin

section \<open>JavaScript numbers\<close>

text \<open>
  Every number of \<^verbatim>\<open>App.tsx\<close> is an IEEE 754 binary64 value. The finite ones are modelled as
  the rationals they denote, and each arithmetic operation as the exact operation followed by
  rounding to the nearest representable value, ties to the even significand (\<open>fl64\<close>).
  \<open>binexp x\<close> is the binary exponent of a positive \<open>x\<close>, \<open>ulp x\<close> the spacing of the
  representable values around it (subnormal below \<open>2 powi - 1022\<close>). Overflow to
  \<^verbatim>\<open>Infinity\<close> is not modelled: the operands below stay far under \<open>2 ^ 1024\<close>.
\<close>

definition binexp :: "rat \<Rightarrow> int" where
  "binexp x = (if 1 \<le> x then bitlen \<lfloor>x\<rfloor> - 1
               else (let j = bitlen \<lfloor>1 / x\<rfloor> - 1 in if x * 2 powi j = 1 then - j else - j - 1))"

definition roundTiesToEven :: "rat \<Rightarrow> int" where
  "roundTiesToEven q = (let n = \<lfloor>q\<rfloor>; r = q - of_int n in
      if r < 1 / 2 then n else if 1 / 2 < r then n + 1 else if even n then n else n + 1)"

definition ulp :: "rat \<Rightarrow> rat" where
  "ulp x = 2 powi (max (binexp x) (- 1022) - 52)"

definition fl64 :: "rat \<Rightarrow> rat" where
  "fl64 x = (if x = 0 then 0 else sgn x * (of_int (roundTiesToEven (\<bar>x\<bar> / ulp \<bar>x\<bar>)) * ulp \<bar>x\<bar>))"

text \<open>The operators \<^verbatim>\<open>/\<close>, \<^verbatim>\<open>+\<close> and \<^verbatim>\<open>*\<close> on numbers (the divisor is never zero below).\<close>

definition fdiv :: "rat \<Rightarrow> rat \<Rightarrow> rat" where
  "fdiv a b = fl64 (a / b)"

definition fadd :: "rat \<Rightarrow> rat \<Rightarrow> rat" where
  "fadd a b = fl64 (a + b)"

definition fmul :: "rat \<Rightarrow> rat \<Rightarrow> rat" where
  "fmul a b = fl64 (a * b)"

section \<open>Track: the pattern generator\<close>

text \<open>
  \<^verbatim>\<open>pattern[i] = true\<close> on a JavaScript array: inside the array the entry is overwritten; beyond
  its end the array grows, the skipped entries being holes, which read as \<^verbatim>\<open>undefined\<close>
  (falsy, \<open>False\<close> here).
\<close>

definition array_set :: "bool list \<Rightarrow> nat \<Rightarrow> bool list" where
  "array_set xs i =
     (if i < length xs then xs[i := True] else xs @ replicate (i - length xs) False @ [True])"

text \<open>
  The body of \<^verbatim>\<open>for (let i = 0; i < pulses; i++)\<close>, with the number of iterations still to
  run as first argument (the counter \<^verbatim>\<open>i\<close> is a whole number below \<open>2 ^ 53\<close> and
  exact). The index is never negative, so \<^verbatim>\<open>Math.floor(index) % steps\<close> is the remainder
  of natural numbers. For \<open>steps = 0\<close> it is \<^verbatim>\<open>NaN\<close>, and the assignment sets a
  property named \<^verbatim>\<open>"NaN"\<close> instead of an entry.
\<close>

fun generatePattern_loop :: "nat \<Rightarrow> nat \<Rightarrow> rat \<Rightarrow> rat \<Rightarrow> bool list \<Rightarrow> bool list" where
  "generatePattern_loop 0 steps increment index pattern = pattern"
| "generatePattern_loop (Suc n) steps increment index pattern =
     generatePattern_loop n steps increment (fadd index increment)
       (if steps = 0 then pattern else array_set pattern (nat \<lfloor>index\<rfloor> mod steps))"

text \<open>
  \<^verbatim>\<open>generatePattern(steps, pulses, rotations)\<close> on the values the component holds:
  whole numbers, none negative (the sliders start at \<open>1\<close>, \<open>0\<close> and \<open>0\<close>), with
  \<open>steps\<close> a legal array length. \<^verbatim>\<open>slice(rotations)\<close> and \<^verbatim>\<open>slice(0, rotations)\<close>
  are \<open>drop\<close> and \<open>take\<close> for such an argument, also beyond the end of the array.
\<close>

definition generatePattern :: "nat \<Rightarrow> nat \<Rightarrow> nat \<Rightarrow> bool list" where
  "generatePattern steps pulses rotations =
     (if pulses = 0 then replicate steps False
      else let pattern = replicate steps False;
               increment = fdiv (of_nat steps) (of_nat pulses);
               pattern = generatePattern_loop pulses steps increment 0 pattern
           in drop rotations pattern @ take rotations pattern)"

text \<open>The running \<^verbatim>\<open>index\<close> of the loop at the start of iteration \<open>i\<close>.\<close>

fun index_at :: "rat \<Rightarrow> nat \<Rightarrow> rat" where
  "index_at increment 0 = 0"
| "index_at increment (Suc i) = fadd (index_at increment i) increment"

text \<open>
  The pattern the \<^verbatim>\<open>Track\<close> effect computes from its state and publishes through
  \<^verbatim>\<open>onSettingsChange\<close>: \<^verbatim>\<open>generatePattern(steps, Math.min(pulses, steps), rotations)\<close>.
\<close>

definition newPattern :: "nat \<Rightarrow> nat \<Rightarrow> nat \<Rightarrow> bool list" where
  "newPattern steps pulses rotations = generatePattern steps (min pulses steps) rotations"

text \<open>
  The clamping the specification describes for the three structural inputs:
  \<open>steps\<close> to \<open>[1, 32]\<close>, \<open>pulses\<close> to \<open>[0, steps]\<close>, \<open>rotation\<close> to \<open>[0, steps)\<close>,
  and the pattern generated from the clamped values.
\<close>

definition clamp :: "nat \<Rightarrow> nat \<Rightarrow> nat \<Rightarrow> nat" where
  "clamp lo hi x = max lo (min hi x)"

definition clampedPattern :: "nat \<Rightarrow> nat \<Rightarrow> nat \<Rightarrow> bool list" where
  "clampedPattern steps pulses rotations =
     (let steps' = clamp 1 32 steps
      in generatePattern steps' (clamp 0 steps' pulses) (clamp 0 (steps' - 1) rotations))"

section \<open>EuclideanSequencer: the conductor\<close>

text \<open>
  The fields of \<^verbatim>\<open>TrackSettings\<close> the scheduler reads or that describe the pattern; the
  sound parameters (gain, frequency, envelope, filter) do not reach any scheduling decision.
\<close>

record track =
  steps :: nat
  pulses :: nat
  pattern :: "bool list"
  patternLength :: nat

text \<open>The settings a \<^verbatim>\<open>Track\<close> with the given state hands to \<^verbatim>\<open>onSettingsChange\<close>.\<close>

definition trackSettings :: "nat \<Rightarrow> nat \<Rightarrow> nat \<Rightarrow> track" where
  "trackSettings s p r =
     \<lparr>steps = s, pulses = min p s, pattern = newPattern s p r, patternLength = s\<rparr>"

datatype transport_state = Started | Stopped | Paused

text \<open>
  The component's state and refs. \<open>tracksRef\<close> lists \<^verbatim>\<open>Object.entries(tracksRef.current)\<close>:
  one entry per track id, in ascending order of the ids.
\<close>

record sequencer =
  isPlaying :: bool
  isPaused :: bool
  currentStep :: nat
  currentStepRef :: nat
  tracksRef :: "(nat \<times> track) list"
  lastPlayedStepRef :: "nat \<rightharpoonup> nat"
  transport :: transport_state

text \<open>A call \<^verbatim>\<open>track.scheduleNote(time, noteDuration)\<close> of the track with the given id.\<close>

datatype note_event = ScheduleNote (noteTrack: nat) (noteTime: rat) (noteLength: rat)

definition initial :: sequencer where
  "initial = \<lparr>isPlaying = False, isPaused = False, currentStep = 0, currentStepRef = 0,
     tracksRef = [], lastPlayedStepRef = Map.empty, transport = Stopped\<rparr>"

text \<open>\<^verbatim>\<open>tracksRef.current[trackId] = settings\<close>, keeping the entries in key order.\<close>

fun assign :: "nat \<Rightarrow> track \<Rightarrow> (nat \<times> track) list \<Rightarrow> (nat \<times> track) list" where
  "assign k v [] = [(k, v)]"
| "assign k v ((k', v') # rest) =
     (if k < k' then (k, v) # (k', v') # rest
      else if k = k' then (k, v) # rest
      else (k', v') # assign k v rest)"

definition handleSettingsChange :: "nat \<Rightarrow> track \<Rightarrow> sequencer \<Rightarrow> sequencer" where
  "handleSettingsChange trackId settings st = st\<lparr>tracksRef := assign trackId settings (tracksRef st)\<rparr>"

definition startSequencer :: "sequencer \<Rightarrow> sequencer" where
  "startSequencer st = st\<lparr>transport := Started, isPlaying := True, isPaused := False\<rparr>"

definition stopSequencer :: "sequencer \<Rightarrow> sequencer" where
  "stopSequencer st = st\<lparr>transport := Stopped, isPlaying := False, isPaused := False,
     currentStepRef := 0, lastPlayedStepRef := Map.empty, currentStep := 0\<rparr>"

text \<open>Tone's \<^verbatim>\<open>transport.pause()\<close> pauses a started transport and leaves any other as it is.\<close>

definition pauseSequencer :: "sequencer \<Rightarrow> sequencer" where
  "pauseSequencer st = st\<lparr>transport := (if transport st = Started then Paused else transport st),
     isPlaying := False, isPaused := True\<rparr>"

text \<open>
  \<^verbatim>\<open>Math.floor(currentStepRef.current / 32 * track.steps) % track.steps\<close>;
  \<open>None\<close> is \<^verbatim>\<open>NaN\<close>, the remainder by zero.
\<close>

definition trackStep :: "nat \<Rightarrow> nat \<Rightarrow> nat option" where
  "trackStep cur n =
     (if n = 0 then None
      else Some (nat \<lfloor>fmul (fdiv (of_nat cur) 32) (of_nat n)\<rfloor> mod n))"

text \<open>\<^verbatim>\<open>track.pattern[trackStep]\<close> as a condition: an index outside the array reads \<^verbatim>\<open>undefined\<close>.\<close>

definition patternBit :: "track \<Rightarrow> nat option \<Rightarrow> bool" where
  "patternBit tr ts = (case ts of None \<Rightarrow> False | Some i \<Rightarrow> i < length (pattern tr) \<and> pattern tr ! i)"

text \<open>
  The \<^verbatim>\<open>forEach\<close> over the entries inside the repeating callback: the notes scheduled, in
  order, and the updated \<^verbatim>\<open>lastPlayedStepRef.current\<close>.
\<close>

fun forEach_track ::
  "rat \<Rightarrow> rat \<Rightarrow> nat \<Rightarrow> (nat \<times> track) list \<Rightarrow> (nat \<rightharpoonup> nat) \<Rightarrow> note_event list \<times> (nat \<rightharpoonup> nat)" where
  "forEach_track time noteDuration cur [] lastPlayed = ([], lastPlayed)"
| "forEach_track time noteDuration cur ((trackId, tr) # rest) lastPlayed =
     (let ts = trackStep cur (steps tr)
      in if patternBit tr ts \<and> lastPlayed trackId \<noteq> ts
         then (let (notes, lastPlayed') =
                     forEach_track time noteDuration cur rest (lastPlayed(trackId := ts))
               in (ScheduleNote trackId time noteDuration # notes, lastPlayed'))
         else forEach_track time noteDuration cur rest lastPlayed)"

text \<open>The callback given to \<^verbatim>\<open>transport.scheduleRepeat(\<dots>, '16n')\<close>.\<close>

definition tick :: "rat \<Rightarrow> rat \<Rightarrow> sequencer \<Rightarrow> note_event list \<times> sequencer" where
  "tick time noteDuration st =
     (let (notes, lastPlayed') =
            forEach_track time noteDuration (currentStepRef st) (tracksRef st) (lastPlayedStepRef st);
          step' = (currentStepRef st + 1) mod 32
      in (notes, st\<lparr>lastPlayedStepRef := lastPlayed', currentStepRef := step', currentStep := step'\<rparr>))"

text \<open>The notes one tick schedules for one track.\<close>

definition notesOf :: "nat \<Rightarrow> note_event list \<Rightarrow> note_event list" where
  "notesOf trackId notes = filter (\<lambda>n. noteTrack n = trackId) notes"

text \<open>A run of ticks at the given times, with the notes of each tick.\<close>

fun ticks :: "rat list \<Rightarrow> rat \<Rightarrow> sequencer \<Rightarrow> note_event list list \<times> sequencer" where
  "ticks [] noteDuration st = ([], st)"
| "ticks (time # later) noteDuration st =
     (let (notes, st') = tick time noteDuration st;
          (rest, st'') = ticks later noteDuration st'
      in (notes # rest, st''))"

text \<open>
  The states the component can be in: the buttons, the settings callback of a track, and the
  transport, which calls the repeating callback only while it is started.
\<close>

inductive reachable :: "sequencer \<Rightarrow> bool" where
  reachable_initial: "reachable initial"
| reachable_start: "reachable st \<Longrightarrow> reachable (startSequencer st)"
| reachable_stop: "reachable st \<Longrightarrow> reachable (stopSequencer st)"
| reachable_pause: "reachable st \<Longrightarrow> reachable (pauseSequencer st)"
| reachable_settings: "reachable st \<Longrightarrow> reachable (handleSettingsChange trackId settings st)"
| reachable_tick: "reachable st \<Longrightarrow> transport st = Started \<Longrightarrow>
    reachable (snd (tick time noteDuration st))"

text \<open>
  The two tracks of the component after Start: track 1 set to two steps and one pulse
  (pattern \<^verbatim>\<open>[true, false]\<close>), track 2 at its initial sixteen steps and four pulses.
\<close>

definition demo :: sequencer where
  "demo = startSequencer (handleSettingsChange 2 (trackSettings 16 4 0)
            (handleSettingsChange 1 (trackSettings 2 1 0) initial))"

section \<open>Rounding to binary64\<close>

text \<open>
  What the rest needs of \<open>fl64\<close>: the exponent found by \<open>binexp\<close> is the right
  one, the result is within half a unit in the last place (a relative error of at most
  \<open>1 / 2 ^ 53\<close> on normal numbers), values with a significand of at most 53 bits are
  returned as they are, and a result can be computed from the exponent of the argument.
\<close>

lemma bitlen_floor_bounds:
  fixes y :: rat
  assumes "1 \<le> y"
  shows "2 powi (bitlen \<lfloor>y\<rfloor> - 1) \<le> y" and "y < 2 powi (bitlen \<lfloor>y\<rfloor>)"
proof -
  let ?n = "\<lfloor>y\<rfloor>"
  from assms have n: "0 < ?n" by simp
  from bitlen_bounds[OF n] have lo: "2 ^ nat (bitlen ?n - 1) \<le> ?n" and hi: "?n < 2 ^ nat (bitlen ?n)"
    by auto
  have b1: "1 \<le> bitlen ?n" using n by (auto simp: bitlen_alt_def)
  have "(2::rat) powi (bitlen ?n - 1) = of_int (2 ^ nat (bitlen ?n - 1))"
    using b1 by (simp add: power_int_def)
  also have "\<dots> \<le> of_int ?n" using lo by (simp only: of_int_le_iff)
  also have "\<dots> \<le> y" by simp
  finally show "2 powi (bitlen \<lfloor>y\<rfloor> - 1) \<le> y" .
  have "?n + 1 \<le> 2 ^ nat (bitlen ?n)" using hi by simp
  then have "(of_int (?n + 1) :: rat) \<le> of_int (2 ^ nat (bitlen ?n))" by (simp only: of_int_le_iff)
  moreover have "y < of_int (?n + 1)" by linarith
  moreover have "(2::rat) powi (bitlen ?n) = of_int (2 ^ nat (bitlen ?n))"
    using b1 by (simp add: power_int_def)
  ultimately show "y < 2 powi (bitlen \<lfloor>y\<rfloor>)" by simp
qed

lemma binexp_bounds:
  assumes "0 < x"
  shows "2 powi (binexp x) \<le> x" and "x < 2 powi (binexp x + 1)"
proof -
  have "2 powi (binexp x) \<le> x \<and> x < 2 powi (binexp x + 1)"
  proof (cases "1 \<le> x")
    case True
    then show ?thesis using bitlen_floor_bounds[OF True] by (simp add: binexp_def)
  next
    case False
    define j where "j = bitlen \<lfloor>1 / x\<rfloor> - 1"
    have y: "1 \<le> 1 / x" using assms False by simp
    from bitlen_floor_bounds[OF y] have lo: "2 powi j \<le> 1 / x" and hi: "1 / x < 2 powi (j + 1)"
      by (simp_all add: j_def)
    have p: "(0::rat) < 2 powi j" "(0::rat) < 2 powi (j + 1)" by simp_all
    from lo have xle: "x * 2 powi j \<le> 1" using assms by (simp add: field_simps)
    from hi have xgt: "1 < x * 2 powi (j + 1)" using assms by (simp add: field_simps)
    have m1: "(2::rat) powi (- j) = 1 / 2 powi j" by (simp add: power_int_minus field_simps)
    have "- j - 1 = - (j + 1)" by simp
    then have m2: "(2::rat) powi (- j - 1) = 1 / 2 powi (j + 1)"
      by (simp only: power_int_minus inverse_eq_divide)
    have m3: "(2::rat) powi (- j - 1 + 1) = 1 / 2 powi j" using m1 by simp
    have m4: "(2::rat) powi (- j + 1) = 2 / 2 powi j"
      using power_int_add[of "2::rat" "- j" 1] m1 by simp
    show ?thesis
    proof (cases "x * 2 powi j = 1")
      case True
      then have e: "binexp x = - j" using False by (simp add: binexp_def j_def Let_def)
      have xv: "x = 1 / 2 powi j" using True p by (simp add: field_simps)
      have "1 / 2 powi j < 2 / (2::rat) powi j" by (simp add: divide_strict_right_mono)
      then show ?thesis unfolding e m1 m4 using xv by simp
    next
      case F2: False
      then have e: "binexp x = - j - 1" using False by (simp add: binexp_def j_def Let_def)
      have "x * 2 powi j < 1" using xle F2 by simp
      then have "x < 1 / 2 powi j" using p by (simp add: field_simps)
      moreover have "1 / 2 powi (j + 1) \<le> x" using xgt p by (simp add: field_simps)
      ultimately show ?thesis unfolding e m2 m3 by simp
    qed
  qed
  then show "2 powi (binexp x) \<le> x" and "x < 2 powi (binexp x + 1)" by simp_all
qed

lemma binexp_unique:
  assumes "0 < x" "2 powi e \<le> x" "x < 2 powi (e + 1)"
  shows "binexp x = e"
proof -
  have u: "a < b + 1" if "(2::rat) powi a \<le> x" "x < 2 powi (b + 1)" for a b
  proof (rule ccontr)
    assume "\<not> a < b + 1"
    then have "b + 1 \<le> a" by simp
    then have "(2::rat) powi (b + 1) \<le> 2 powi a" by (rule power_int_increasing) simp
    with that show False by simp
  qed
  from u[OF binexp_bounds(1)[OF assms(1)] assms(3)] u[OF assms(2) binexp_bounds(2)[OF assms(1)]]
  show ?thesis by simp
qed

lemma roundTiesToEven_error: "\<bar>of_int (roundTiesToEven q) - q\<bar> \<le> 1 / 2"
proof -
  have "of_int \<lfloor>q\<rfloor> \<le> q" "q < of_int \<lfloor>q\<rfloor> + 1" by linarith+
  then show ?thesis by (auto simp: roundTiesToEven_def Let_def)
qed

lemma roundTiesToEven_of_int [simp]: "roundTiesToEven (of_int n) = n"
  by (simp add: roundTiesToEven_def)

lemma roundTiesToEven_eq:
  assumes "\<bar>q - of_int n\<bar> < 1 / 2"
  shows "roundTiesToEven q = n"
proof (cases "of_int n \<le> q")
  case True
  with assms have "\<lfloor>q\<rfloor> = n" by (intro floor_unique) (auto simp: abs_if split: if_splits)
  with assms True show ?thesis by (simp add: roundTiesToEven_def)
next
  case False
  with assms have f: "\<lfloor>q\<rfloor> = n - 1" by (intro floor_unique) (auto simp: abs_if split: if_splits)
  have "1 / 2 < q - of_int (n - 1)" using assms False by (auto simp: abs_if split: if_splits)
  then show ?thesis unfolding roundTiesToEven_def f Let_def by auto
qed

lemma roundTiesToEven_even:
  assumes "\<bar>q - of_int n\<bar> \<le> 1 / 2" "even n"
  shows "roundTiesToEven q = n"
proof -
  have "\<bar>q - of_int n\<bar> < 1 / 2 \<or> q = of_int n + 1 / 2 \<or> q = of_int n - 1 / 2"
    using assms(1) by linarith
  then consider "\<bar>q - of_int n\<bar> < 1 / 2" | "q = of_int n + 1 / 2" | "q = of_int n - 1 / 2"
    by blast
  then show ?thesis
  proof cases
    case 1
    then show ?thesis by (rule roundTiesToEven_eq)
  next
    case 2
    have "\<lfloor>q\<rfloor> = n" unfolding 2 by (intro floor_unique) simp_all
    then show ?thesis using assms(2) by (simp add: roundTiesToEven_def 2)
  next
    case 3
    have f: "\<lfloor>q\<rfloor> = n - 1" unfolding 3 by (intro floor_unique) simp_all
    have "q - of_int (n - 1) = 1 / 2" by (simp add: 3)
    then show ?thesis using assms(2) unfolding roundTiesToEven_def f Let_def by simp
  qed
qed

lemma ulp_pos: "0 < ulp x"
  by (simp add: ulp_def)

lemma ulp_eq:
  assumes "0 < x" "2 powi e \<le> x" "x < 2 powi (e + 1)" "- 1022 \<le> e"
  shows "ulp x = 2 powi (e - 52)"
  using binexp_unique[OF assms(1-3)] assms(4) by (simp add: ulp_def max_def)

lemma fl64_pos: "0 < x \<Longrightarrow> fl64 x = of_int (roundTiesToEven (x / ulp x)) * ulp x"
  by (simp add: fl64_def)

lemma fl64_error_ulp:
  assumes "0 < x"
  shows "\<bar>fl64 x - x\<bar> \<le> ulp x / 2"
proof -
  let ?u = "ulp x"
  have u: "0 < ?u" by (rule ulp_pos)
  have "fl64 x - x = (of_int (roundTiesToEven (x / ?u)) - x / ?u) * ?u"
    using u by (simp add: fl64_pos[OF assms] algebra_simps)
  then have "\<bar>fl64 x - x\<bar> = \<bar>of_int (roundTiesToEven (x / ?u)) - x / ?u\<bar> * ?u"
    using u by (simp add: abs_mult)
  also have "\<dots> \<le> (1 / 2) * ?u"
    by (rule mult_right_mono[OF roundTiesToEven_error]) (use u in simp)
  finally show ?thesis by simp
qed

lemma fl64_error:
  assumes "2 powi (- 1022) \<le> x"
  shows "\<bar>fl64 x - x\<bar> \<le> x / 2 ^ 53"
proof -
  have x: "0 < x" using assms by (rule less_le_trans[rotated]) simp
  have "- 1022 < binexp x + 1"
  proof (rule ccontr)
    assume "\<not> - 1022 < binexp x + 1"
    then have "binexp x + 1 \<le> - 1022" by simp
    then have "(2::rat) powi (binexp x + 1) \<le> 2 powi (- 1022)" by (rule power_int_increasing) simp
    with binexp_bounds(2)[OF x] assms show False by simp
  qed
  then have "ulp x = 2 powi (binexp x - 52)" by (simp add: ulp_def max_def)
  then have "ulp x / 2 = 2 powi (binexp x) / 2 ^ 53"
    using power_int_diff[of "2::rat" "binexp x" 52] by simp
  also have "\<dots> \<le> x / 2 ^ 53" using binexp_bounds(1)[OF x] by (simp add: divide_right_mono)
  finally show ?thesis using fl64_error_ulp[OF x] by simp
qed

lemma fl64_error54:
  assumes "1 / 2 ^ 54 \<le> x"
  shows "\<bar>fl64 x - x\<bar> \<le> x / 2 ^ 53" and "0 \<le> fl64 x"
proof -
  have "(2::rat) powi (- 1022) \<le> 2 powi (- 54)" by (rule power_int_increasing) simp_all
  also have "\<dots> = 1 / 2 ^ 54" by (simp add: power_int_minus inverse_eq_divide)
  finally have "(2::rat) powi (- 1022) \<le> x" using assms by (rule order_trans)
  then show e: "\<bar>fl64 x - x\<bar> \<le> x / 2 ^ 53" by (rule fl64_error)
  have x: "0 < x" using assms by (rule less_le_trans[rotated]) simp
  then have "x / 2 ^ 53 \<le> x" by (simp add: field_simps)
  with e show "0 \<le> fl64 x" by linarith
qed

lemma fl64_exact:
  assumes "0 < k" "k < 2 ^ 53" "- 1074 \<le> j"
  shows "fl64 (of_int k * 2 powi j) = of_int k * 2 powi j"
proof -
  define x :: rat where "x = of_int k * 2 powi j"
  define t where "t = max (binexp x) (- 1022) - 52"
  have x: "0 < x" using assms(1) by (simp add: x_def)
  have u: "ulp x = 2 powi t" by (simp add: ulp_def t_def)
  have "t \<le> j"
  proof (cases "- 1022 \<le> binexp x")
    case True
    have "(of_int k :: rat) < of_int (2 ^ 53)" using assms(2) by (simp only: of_int_less_iff)
    then have "(of_int k :: rat) < 2 ^ 53" by simp
    then have "x < 2 ^ 53 * 2 powi j"
      unfolding x_def by (rule mult_strict_right_mono) simp
    also have "\<dots> = 2 powi (53 + j)" using power_int_add[of "2::rat" 53 j] by simp
    finally have "2 powi (binexp x) < (2::rat) powi (53 + j)"
      using binexp_bounds(1)[OF x] by simp
    then have "binexp x < 53 + j"
      by (metis not_less power_int_increasing one_le_numeral)
    then show ?thesis using True by (simp add: t_def max_def)
  next
    case False
    then show ?thesis using assms(3) by (simp add: t_def max_def)
  qed
  then obtain d where d: "j = t + int d" by (metis zle_iff_zadd)
  have "x / ulp x = x / 2 powi t" by (simp only: u)
  also have "\<dots> = of_int k * (2 powi (t + int d) / 2 powi t)" by (simp add: x_def d)
  also have "2 powi (t + int d) / 2 powi t = (2::rat) ^ d"
    using power_int_add[of "2::rat" t "int d"] by simp
  finally have "x / ulp x = of_int (k * 2 ^ d)" by simp
  then have "fl64 x = of_int (k * 2 ^ d) * 2 powi t"
    by (simp only: fl64_pos[OF x] roundTiesToEven_of_int u)
  also have "\<dots> = x" using power_int_add[of "2::rat" t "int d"] by (simp add: x_def d)
  finally show ?thesis by (simp add: x_def)
qed

lemma fl64_of_nat:
  assumes "n < 2 ^ 53"
  shows "fl64 (of_nat n) = of_nat n"
proof (cases "n = 0")
  case True
  then show ?thesis by (simp add: fl64_def)
next
  case False
  have "int n < 2 ^ 53" using assms by (metis of_nat_less_iff of_nat_numeral of_nat_power)
  with False fl64_exact[of "int n" 0] show ?thesis by simp
qed

lemma fl64_dyadic:
  assumes "n < 2 ^ 53" "d \<le> 1074"
  shows "fl64 (of_nat n / 2 ^ d) = of_nat n / 2 ^ d"
proof (cases "n = 0")
  case True
  then show ?thesis by (simp add: fl64_def)
next
  case False
  have "int n < 2 ^ 53" using assms(1) by (metis of_nat_less_iff of_nat_numeral of_nat_power)
  moreover have "(2::rat) powi (- int d) = 1 / 2 ^ d"
    by (simp add: power_int_minus inverse_eq_divide)
  ultimately show ?thesis
    using False assms(2) fl64_exact[of "int n" "- int d"] by simp
qed

lemma fl64_eval:
  assumes "0 < x" "2 powi e \<le> x" "x < 2 powi (e + 1)" "- 1022 \<le> e"
  shows "fl64 x = of_int (roundTiesToEven (x / 2 powi (e - 52))) * 2 powi (e - 52)"
  by (simp only: fl64_pos[OF assms(1)] ulp_eq[OF assms])

lemma fl64_near:
  assumes "0 < x" "2 powi e \<le> x" "x < 2 powi (e + 1)" "- 1022 \<le> e"
    and "\<bar>x / 2 powi (e - 52) - of_int n\<bar> < 1 / 2"
  shows "fl64 x = of_int n * 2 powi (e - 52)"
  by (simp only: fl64_eval[OF assms(1-4)] roundTiesToEven_eq[OF assms(5)])

lemma fl64_round:
  assumes "0 < x" "2 powi e \<le> x" "x < 2 powi (e + 1)" "- 1022 \<le> e"
    and "\<bar>x / 2 powi (e - 52) - of_int n\<bar> < 1 / 2
         \<or> \<bar>x / 2 powi (e - 52) - of_int n\<bar> \<le> 1 / 2 \<and> even n"
  shows "fl64 x = of_int n * 2 powi (e - 52)"
proof -
  have "roundTiesToEven (x / 2 powi (e - 52)) = n"
    using assms(5) roundTiesToEven_eq roundTiesToEven_even by blast
  then show ?thesis by (simp only: fl64_eval[OF assms(1-4)])
qed

text \<open>
  Three familiar values: the double written \<^verbatim>\<open>0.1\<close>, and two ties, one resolved
  downwards and one upwards, each to the even significand.
\<close>

lemma fl64_examples:
  "fl64 (1 / 10) = 3602879701896397 / 36028797018963968"
  "fl64 (1 + 1 / 2 ^ 53) = 1"
  "fl64 (1 + 3 / 2 ^ 53) = 1 + 1 / 2 ^ 51"
proof -
  show "fl64 (1 / 10) = 3602879701896397 / 36028797018963968"
    by (subst fl64_round[where e="- 4" and n=7205759403792794]) simp_all
  show "fl64 (1 + 1 / 2 ^ 53) = 1"
    by (subst fl64_round[where e=0 and n=4503599627370496]) simp_all
  show "fl64 (1 + 3 / 2 ^ 53) = 1 + 1 / 2 ^ 51"
    by (subst fl64_round[where e=0 and n=4503599627370498]) simp_all
qed

lemma fadd_of_nat:
  "a + b < 2 ^ 53 \<Longrightarrow> fadd (of_nat a) (of_nat b) = of_nat (a + b)"
  using fl64_of_nat[of "a + b"] by (simp add: fadd_def)

section \<open>The pattern generator\<close>

lemma generatePattern_loop_length:
  "s \<le> length pat \<Longrightarrow> length (generatePattern_loop n s inc x pat) = length pat"
proof (induction n arbitrary: x pat)
  case 0
  then show ?case by simp
next
  case (Suc n)
  have "s \<noteq> 0 \<Longrightarrow> nat \<lfloor>x\<rfloor> mod s < length pat"
    using Suc.prems by (meson mod_less_divisor less_le_trans neq0_conv)
  then show ?case using Suc by (simp add: array_set_def)
qed

lemma length_generatePattern [simp]: "length (generatePattern s p r) = s"
  by (auto simp: generatePattern_def Let_def generatePattern_loop_length)

lemma generatePattern_rotate:
  "generatePattern s p r = drop r (generatePattern s p 0) @ take r (generatePattern s p 0)"
proof (cases "p = 0")
  case True
  have "replicate (s - r) False @ replicate (min r s) False = replicate s False"
    by (simp flip: replicate_add)
  with True show ?thesis by (simp add: generatePattern_def)
next
  case False
  then show ?thesis by (simp add: generatePattern_def Let_def)
qed

lemma generatePattern_ge: "s \<le> r \<Longrightarrow> generatePattern s p r = generatePattern s p 0"
  by (subst generatePattern_rotate) simp

lemma array_set_nth:
  "i < length xs \<Longrightarrow> k < length xs \<Longrightarrow> array_set xs i ! k \<longleftrightarrow> xs ! k \<or> i = k"
  by (auto simp: array_set_def nth_list_update)

lemma array_set_length: "i < length xs \<Longrightarrow> length (array_set xs i) = length xs"
  by (simp add: array_set_def)

lemma funpow_fadd:
  "((\<lambda>y. fadd y inc) ^^ j) (fadd x inc) = fadd (((\<lambda>y. fadd y inc) ^^ j) x) inc"
  by (induction j) simp_all

lemma generatePattern_loop_nth:
  assumes "0 < s" "s \<le> length pat" "k < length pat"
  shows "generatePattern_loop n s inc x pat ! k \<longleftrightarrow>
         pat ! k \<or> (\<exists>j<n. nat \<lfloor>((\<lambda>y. fadd y inc) ^^ j) x\<rfloor> mod s = k)"
  using assms
proof (induction n arbitrary: x pat)
  case 0
  then show ?case by simp
next
  case (Suc n)
  let ?i = "nat \<lfloor>x\<rfloor> mod s"
  have i: "?i < length pat" using Suc.prems by (meson mod_less_divisor less_le_trans)
  have "generatePattern_loop (Suc n) s inc x pat ! k \<longleftrightarrow>
        array_set pat ?i ! k \<or> (\<exists>j<n. nat \<lfloor>((\<lambda>y. fadd y inc) ^^ j) (fadd x inc)\<rfloor> mod s = k)"
    using Suc.prems i by (simp add: Suc.IH array_set_length)
  also have "\<dots> \<longleftrightarrow> pat ! k \<or> ?i = k \<or> (\<exists>j<n. nat \<lfloor>((\<lambda>y. fadd y inc) ^^ Suc j) x\<rfloor> mod s = k)"
    using Suc.prems i by (simp add: array_set_nth funpow_fadd)
  also have "\<dots> \<longleftrightarrow> pat ! k \<or> (\<exists>j<Suc n. nat \<lfloor>((\<lambda>y. fadd y inc) ^^ j) x\<rfloor> mod s = k)"
  proof -
    have "(\<exists>j<Suc n. P j) \<longleftrightarrow> P 0 \<or> (\<exists>j<n. P (Suc j))" for P
      by (metis less_Suc_eq_0_disj)
    then show ?thesis by simp
  qed
  finally show ?case .
qed

lemma index_at_funpow: "index_at inc j = ((\<lambda>y. fadd y inc) ^^ j) 0"
  by (induction j) simp_all

lemma generatePattern_nth:
  assumes "0 < p" "k < s"
  shows "generatePattern s p 0 ! k \<longleftrightarrow>
         (\<exists>j<p. nat \<lfloor>index_at (fdiv (of_nat s) (of_nat p)) j\<rfloor> mod s = k)"
proof -
  have "0 < s" using assms by simp
  then show ?thesis
    using assms generatePattern_loop_nth[of s "replicate s False" k p _ 0]
    by (simp add: generatePattern_def Let_def index_at_funpow)
qed

text \<open>
  Claim C10. \<^verbatim>\<open>generatePattern\<close> returns for every rotation, the result always has
  \<open>steps\<close> entries, and a rotation of \<open>steps\<close> or more leaves the pattern unrotated:
  \<^verbatim>\<open>slice(rotations)\<close> is then empty and \<^verbatim>\<open>slice(0, rotations)\<close> the whole array.
\<close>

theorem generatePattern_rotation_total:
  "length (generatePattern s p r) = s \<and> (s \<le> r \<longrightarrow> generatePattern s p r = generatePattern s p 0)"
  by (simp add: generatePattern_ge)

theorem generatePattern_rotation_total_witness:
  "(4::nat) \<le> 5 \<and> length (generatePattern 4 1 5) = 4 \<and> generatePattern 4 1 5 = generatePattern 4 1 0"
  using generatePattern_rotation_total[of 4 1 5] by simp

subsection \<open>Evaluation on numerals\<close>

lemma floor_rat_numeral: "\<lfloor>(numeral a :: rat) / numeral b\<rfloor> = numeral a div numeral b"
  using floor_divide_of_int_eq[of "numeral a" "numeral b", where ?'a = rat] by simp

lemma list_update_Cons_numeral: "(x # xs)[numeral n := y] = x # xs[pred_numeral n := y]"
  by (simp add: numeral_eq_Suc)

lemma replicate_numeral: "replicate (numeral n) x = x # replicate (pred_numeral n) x"
  by (simp add: numeral_eq_Suc)

lemma generatePattern_loop_numeral:
  "generatePattern_loop (numeral n) s inc x pat =
     generatePattern_loop (pred_numeral n) s inc (fadd x inc)
       (if s = 0 then pat else array_set pat (nat \<lfloor>x\<rfloor> mod s))"
  by (simp add: numeral_eq_Suc)

lemmas eval_pattern = generatePattern_def Let_def generatePattern_loop_numeral replicate_numeral
  list_update_Cons_numeral array_set_def floor_rat_numeral

lemma fl64_8_3: "fl64 (8 / 3) = 6004799503160661 / 2251799813685248"
  by (subst fl64_near[where e=1 and n=6004799503160661]) simp_all

lemma fdiv_8_3: "fdiv 8 3 = 6004799503160661 / 2251799813685248"
  by (simp add: fdiv_def fl64_8_3)

lemma fadd_8_3_1: "fadd 0 (6004799503160661 / 2251799813685248) = 6004799503160661 / 2251799813685248"
  unfolding fadd_def by (subst fl64_near[where e=1 and n=6004799503160661]) simp_all

lemma fadd_8_3_2: "fadd (6004799503160661 / 2251799813685248) (6004799503160661 / 2251799813685248)
    = 6004799503160661 / 1125899906842624"
  unfolding fadd_def by (subst fl64_near[where e=2 and n=6004799503160661]) simp_all

text \<open>
  Claim C7. \<^verbatim>\<open>generatePattern(8, 3, 0)\<close> returns
  \<^verbatim>\<open>[true, false, true, false, false, true, false, false]\<close>: the increment is the double
  nearest to \<open>8 / 3\<close>, the running index takes the values \<open>0\<close>, \<open>2.66\<dots>\<close> and \<open>5.33\<dots>\<close>,
  and the entries \<open>0\<close>, \<open>2\<close> and \<open>5\<close> are set.
\<close>

theorem generatePattern_8_3_0: "generatePattern 8 3 0 = [True, False, True, False, False, True, False, False]"
  by (simp add: eval_pattern fdiv_8_3 fadd_8_3_1 fadd_8_3_2)

lemma generatePattern_2_1_0: "generatePattern 2 1 0 = [True, False]"
proof -
  have "fdiv 2 1 = 2" using fl64_of_nat[of 2] by (simp add: fdiv_def)
  then show ?thesis
    apply (simp add: generatePattern_def Let_def)
    apply (simp add: array_set_def replicate_numeral)
    done
qed

lemma generatePattern_16_4_0:
  "generatePattern 16 4 0 = [True, False, False, False, True, False, False, False,
                             True, False, False, False, True, False, False, False]"
proof -
  have d: "fdiv 16 4 = 4" using fl64_of_nat[of 4] by (simp add: fdiv_def)
  have a: "fadd 0 4 = 4" "fadd 4 4 = 8" "fadd 8 4 = 12"
    using fadd_of_nat[of 0 4] fadd_of_nat[of 4 4] fadd_of_nat[of 8 4] by simp_all
  show ?thesis by (simp add: eval_pattern d a)
qed

text \<open>
  Where the rotation is in range, the effect's pattern is the one the specification
  describes, whatever the pulses: \<^verbatim>\<open>Math.min(pulses, steps)\<close> is the clamp of the pulses.
\<close>

lemma newPattern_in_range:
  assumes "1 \<le> s" "s \<le> 32" "r < s"
  shows "newPattern s p r = clampedPattern s p r"
proof -
  have "clamp 1 32 s = s" "clamp 0 s p = min p s" "clamp 0 (s - 1) r = r"
    using assms by (simp_all add: clamp_def)
  then show ?thesis by (simp add: newPattern_def clampedPattern_def)
qed

text \<open>
  Claim C4, evaluated at a rotation left over from a longer pattern (\<open>steps = 4\<close>,
  \<open>pulses = 1\<close>, \<open>rotations = 5\<close>). The effect passes the rotation on as it is and the
  pattern stays unrotated; the clamped values (\<open>4\<close>, \<open>1\<close>, \<open>3\<close>) give the pattern
  rotated by three.
\<close>

theorem stale_rotation_not_clamped:
  "newPattern 4 1 5 = [True, False, False, False]
   \<and> clampedPattern 4 1 5 = [False, True, False, False]"
proof -
  have "fdiv 4 1 = 4" using fl64_of_nat[of 4] by (simp add: fdiv_def)
  then have "generatePattern 4 1 5 = [True, False, False, False]"
    and "generatePattern 4 1 3 = [False, True, False, False]"
    by (simp_all add: generatePattern_def Let_def array_set_def replicate_numeral)
  then show ?thesis by (simp add: newPattern_def clampedPattern_def clamp_def)
qed

section \<open>The running index under rounding\<close>

text \<open>
  The index of iteration \<open>j\<close> differs from \<open>j * steps / pulses\<close> by at most
  \<open>j * (2 * steps + 2) / 2 ^ 53\<close>, and it never decreases.
\<close>

lemma fadd_step:
  fixes x inc r m e a B :: rat
  assumes inc: "1 / 2 ^ 54 \<le> inc" and x: "0 \<le> x"
    and a: "\<bar>inc - r\<bar> \<le> a" and e: "\<bar>x - m\<bar> \<le> e" and B: "x + inc \<le> B"
  shows "\<bar>fadd x inc - (m + r)\<bar> \<le> e + a + B / 2 ^ 53" and "0 \<le> fadd x inc"
proof -
  have y: "1 / 2 ^ 54 \<le> x + inc" using inc x by linarith
  have "\<bar>fl64 (x + inc) - (x + inc)\<bar> \<le> (x + inc) / 2 ^ 53" by (rule fl64_error54[OF y])
  also have "\<dots> \<le> B / 2 ^ 53" using B by (simp add: divide_right_mono)
  finally have "\<bar>fl64 (x + inc) - (x + inc)\<bar> \<le> B / 2 ^ 53" .
  with a e show "\<bar>fadd x inc - (m + r)\<bar> \<le> e + a + B / 2 ^ 53"
    unfolding fadd_def by linarith
  show "0 \<le> fadd x inc" unfolding fadd_def by (rule fl64_error54[OF y])
qed

lemma fdiv_error:
  fixes s p :: nat
  assumes "0 < s" "0 < p" "p \<le> 2 ^ 53"
  shows "\<bar>fdiv (of_nat s) (of_nat p) - of_nat s / of_nat p\<bar> \<le> of_nat s / 2 ^ 53"
    and "1 / 2 ^ 54 \<le> fdiv (of_nat s) (of_nat p)"
proof -
  let ?r = "(of_nat s :: rat) / of_nat p"
  have p1: "(1::rat) \<le> of_nat p" using assms(2) by simp
  have pp: "(of_nat p :: rat) \<le> 2 ^ 53"
    using assms(3) by (metis of_nat_le_iff of_nat_numeral of_nat_power)
  have s1: "(1::rat) \<le> of_nat s" using assms(1) by simp
  have rle: "?r \<le> of_nat s" using p1 s1 by (simp add: field_simps)
  have "1 / 2 ^ 53 \<le> 1 / (of_nat p :: rat)" using pp p1 by (simp add: frac_le)
  also have "\<dots> \<le> ?r" using s1 p1 by (simp add: divide_right_mono)
  finally have rge: "1 / 2 ^ 53 \<le> ?r" .
  have "(1::rat) / 2 ^ 54 \<le> 1 / 2 ^ 53" by simp
  from this rge have r: "1 / 2 ^ 54 \<le> ?r" by (rule order_trans)
  have err: "\<bar>fl64 ?r - ?r\<bar> \<le> ?r / 2 ^ 53" by (rule fl64_error54[OF r])
  also have "\<dots> \<le> of_nat s / 2 ^ 53" using rle by (simp add: divide_right_mono)
  finally show "\<bar>fdiv (of_nat s) (of_nat p) - ?r\<bar> \<le> of_nat s / 2 ^ 53"
    by (simp add: fdiv_def)
  have "?r / 2 ^ 53 \<le> ?r / 2" using rge by (simp add: field_simps)
  with err have "?r / 2 \<le> fl64 ?r" by linarith
  moreover have "1 / 2 ^ 54 \<le> ?r / 2" using rge by (simp add: field_simps)
  ultimately show "1 / 2 ^ 54 \<le> fdiv (of_nat s) (of_nat p)"
    by (simp add: fdiv_def)
qed

lemma of_nat_Suc_mult: "of_nat j * r + r = of_nat (Suc j) * (r::rat)"
  by (simp add: algebra_simps)

lemma cast_bound:
  fixes a :: nat
  assumes "a \<le> 2 ^ 53"
  shows "(of_nat a :: rat) / 2 ^ 53 \<le> 1"
proof -
  have "(of_nat a :: rat) \<le> of_nat (2 ^ 53)" using assms by (simp only: of_nat_le_iff)
  then show ?thesis by simp
qed

lemma index_at_error:
  fixes s p :: nat
  assumes "0 < s" "0 < p" "p * (2 * s + 2) \<le> 2 ^ 53" "j \<le> p"
  shows "\<bar>index_at (fdiv (of_nat s) (of_nat p)) j - of_nat j * (of_nat s / of_nat p)\<bar>
           \<le> of_nat j * (of_nat (2 * s + 2) / 2 ^ 53)
         \<and> 0 \<le> index_at (fdiv (of_nat s) (of_nat p)) j"
  using assms(4)
proof (induction j)
  case 0
  then show ?case by simp
next
  case (Suc j)
  let ?inc = "fdiv (of_nat s) (of_nat p)"
  let ?r = "(of_nat s :: rat) / of_nat p"
  let ?c = "(of_nat (2 * s + 2) :: rat) / 2 ^ 53"
  let ?x = "index_at ?inc j"
  have p53: "p \<le> 2 ^ 53"
  proof -
    have "p * 1 \<le> p * (2 * s + 2)" by (rule mult_le_mono2) simp
    with assms(3) show ?thesis by simp
  qed
  have IH: "\<bar>?x - of_nat j * ?r\<bar> \<le> of_nat j * ?c" and x0: "0 \<le> ?x"
    using Suc by simp_all
  note inc = fdiv_error[OF assms(1,2) p53]
  have pr: "(0::rat) < of_nat p" using assms(2) by simp
  have jr: "of_nat (Suc j) * ?r \<le> of_nat s"
  proof -
    have "(of_nat (Suc j) :: rat) \<le> of_nat p" using Suc.prems by (simp only: of_nat_le_iff)
    then have "of_nat (Suc j) * ?r \<le> of_nat p * ?r" by (rule mult_right_mono) simp
    also have "\<dots> = of_nat s" using pr by simp
    finally show ?thesis .
  qed
  have pc: "of_nat p * ?c \<le> 1"
  proof -
    have "(of_nat (p * (2 * s + 2)) :: rat) \<le> of_nat (2 ^ 53)"
      using assms(3) by (simp only: of_nat_le_iff)
    then show ?thesis by (simp add: field_simps)
  qed
  have jc: "of_nat j * ?c \<le> 1"
  proof -
    have "(of_nat j :: rat) \<le> of_nat p" using Suc.prems by simp
    then have "of_nat j * ?c \<le> of_nat p * ?c" by (rule mult_right_mono) simp
    from this pc show ?thesis by (rule order_trans)
  qed
  have s53: "(of_nat s :: rat) / 2 ^ 53 \<le> 1"
  proof -
    have "1 * (2 * s + 2) \<le> p * (2 * s + 2)" using assms(2) by (intro mult_le_mono1) simp
    with assms(3) have "s \<le> 2 ^ 53" by simp
    then have "(of_nat s :: rat) \<le> of_nat (2 ^ 53)" by (simp only: of_nat_le_iff)
    then show ?thesis by simp
  qed
  have B: "?x + ?inc \<le> of_nat s + 2"
  proof -
    have "?x \<le> of_nat j * ?r + of_nat j * ?c" using IH by linarith
    moreover have "?inc \<le> ?r + of_nat s / 2 ^ 53" using inc(1) by linarith
    moreover have "of_nat j * ?r + ?r = of_nat (Suc j) * ?r" by (rule of_nat_Suc_mult)
    ultimately show ?thesis using jr jc s53 by linarith
  qed
  have main: "\<bar>fadd ?x ?inc - (of_nat j * ?r + ?r)\<bar> \<le> of_nat j * ?c + of_nat s / 2 ^ 53 + (of_nat s + 2) / 2 ^ 53"
    by (rule fadd_step(1)[OF inc(2) x0 inc(1) IH B])
  have e1: "of_nat j * ?r + ?r = of_nat (Suc j) * ?r" by (rule of_nat_Suc_mult)
  have e2: "of_nat j * ?c + of_nat s / 2 ^ 53 + (of_nat s + 2) / 2 ^ 53 = of_nat (Suc j) * ?c"
    unfolding of_nat_Suc_mult[symmetric] by (simp add: field_simps)
  have "\<bar>index_at ?inc (Suc j) - of_nat (Suc j) * ?r\<bar> \<le> of_nat (Suc j) * ?c"
    using main unfolding e1 e2 by (simp only: index_at.simps)
  moreover have "0 \<le> index_at ?inc (Suc j)"
    using fadd_step(2)[OF inc(2) x0 inc(1) IH B] by simp
  ultimately show ?case by blast
qed

lemma index_at_mono:
  fixes s p :: nat
  assumes "0 < s" "0 < p" "p * (2 * s + 2) \<le> 2 ^ 53"
  shows "j \<le> k \<Longrightarrow> k \<le> p \<Longrightarrow>
         index_at (fdiv (of_nat s) (of_nat p)) j \<le> index_at (fdiv (of_nat s) (of_nat p)) k"
proof (induction k)
  case 0
  then show ?case by simp
next
  case (Suc k)
  let ?inc = "fdiv (of_nat s) (of_nat p)"
  define P S r c :: rat where "P = of_nat p" and "S = of_nat s"
    and "r = S / P" and "c = of_nat (2 * s + 2) / 2 ^ 53"
  have kp: "k \<le> p" using Suc.prems by simp
  have p53: "p \<le> 2 ^ 53"
  proof -
    have "p * 1 \<le> p * (2 * s + 2)" by (rule mult_le_mono2) simp
    with assms(3) show ?thesis by simp
  qed
  note inc = fdiv_error[OF assms(1,2) p53]
  have e: "\<bar>index_at ?inc k - of_nat k * r\<bar> \<le> of_nat k * c" and x0: "0 \<le> index_at ?inc k"
    using index_at_error[OF assms kp] by (simp_all add: r_def S_def P_def c_def)
  have P1: "1 \<le> P" using assms(2) by (simp add: P_def)
  have S1: "1 \<le> S" using assms(1) by (simp add: S_def)
  have Pc: "P * c \<le> 1"
  proof -
    have "P * c = of_nat (p * (2 * s + 2)) / 2 ^ 53" by (simp add: P_def c_def algebra_simps)
    also have "\<dots> \<le> 1" using assms(3) by (rule cast_bound)
    finally show ?thesis .
  qed
  have kc: "of_nat k * c \<le> 1"
  proof -
    have "(of_nat k :: rat) \<le> P" using Suc.prems by (simp add: P_def)
    then have "of_nat k * c \<le> P * c" by (rule mult_right_mono) (simp add: c_def)
    from this Pc show ?thesis by (rule order_trans)
  qed
  have kr: "of_nat (Suc k) * r \<le> S"
  proof -
    have "(of_nat (Suc k) :: rat) \<le> P" using Suc.prems(2) by (simp only: P_def of_nat_le_iff)
    then have "of_nat (Suc k) * r \<le> P * r" by (rule mult_right_mono) (simp add: r_def S_def P_def)
    also have "\<dots> = S" using P1 by (simp add: r_def)
    finally show ?thesis .
  qed
  have rc: "c \<le> r"
  proof -
    have "c = (P * c) / P" using P1 by simp
    also have "\<dots> \<le> 1 / P" by (rule divide_right_mono[OF Pc]) (use P1 in simp)
    also have "\<dots> \<le> S / P" using S1 P1 by (simp add: divide_right_mono)
    finally show ?thesis by (simp add: r_def)
  qed
  have inc_lo: "r - S / 2 ^ 53 \<le> ?inc" and inc_hi: "?inc \<le> r + S / 2 ^ 53"
    using inc(1) unfolding r_def S_def P_def by linarith+
  have S53: "S / 2 ^ 53 \<le> 1"
  proof -
    have "1 * s \<le> p * (2 * s + 2)" using assms(2) by (intro mult_le_mono) simp_all
    with assms(3) have "s \<le> 2 ^ 53" by simp
    then show ?thesis unfolding S_def by (rule cast_bound)
  qed
  let ?y = "index_at ?inc k + ?inc"
  have y: "1 / 2 ^ 54 \<le> ?y" using inc(2) x0 by linarith
  have "of_nat k * r + r = of_nat (Suc k) * r" by (rule of_nat_Suc_mult)
  then have yB: "?y \<le> S + 2" using e kc kr inc_hi S53 by linarith
  have "\<bar>fl64 ?y - ?y\<bar> \<le> ?y / 2 ^ 53" by (rule fl64_error54(1)[OF y])
  also have "\<dots> \<le> (S + 2) / 2 ^ 53" using yB by (simp add: divide_right_mono)
  finally have "?y - (S + 2) / 2 ^ 53 \<le> fl64 ?y" by linarith
  moreover have "(S + 2) / 2 ^ 53 + S / 2 ^ 53 = c" by (simp add: c_def S_def field_simps)
  ultimately have "index_at ?inc k \<le> fl64 ?y" using inc_lo rc by linarith
  then have "index_at ?inc k \<le> index_at ?inc (Suc k)" by (simp add: fadd_def)
  then show ?case using Suc by (cases "j = Suc k") simp_all
qed

lemma index_at_one: "j < 2 ^ 53 \<Longrightarrow> index_at 1 j = of_nat j"
proof (induction j)
  case 0
  then show ?case by simp
next
  case (Suc j)
  then have "index_at 1 j = of_nat j" by simp
  moreover have "fl64 (of_nat (Suc j)) = of_nat (Suc j)" using Suc.prems by (rule fl64_of_nat)
  ultimately show ?case by (simp add: fadd_def add.commute)
qed

lemma fdiv_same: "0 < s \<Longrightarrow> fdiv (of_nat s) (of_nat s) = 1"
  using fl64_of_nat[of 1] by (simp add: fdiv_def)

lemma generatePattern_full:
  assumes "0 < s" "s < 2 ^ 53"
  shows "generatePattern s s 0 = replicate s True"
proof (rule nth_equalityI)
  show "length (generatePattern s s 0) = length (replicate s True)" by simp
next
  fix k assume "k < length (generatePattern s s 0)"
  then have k: "k < s" by simp
  then have "k < 2 ^ 53" using assms(2) by simp
  then have "nat \<lfloor>index_at 1 k\<rfloor> mod s = k" using k by (simp add: index_at_one)
  then have "generatePattern s s 0 ! k"
    using k assms(1) by (auto simp: generatePattern_nth fdiv_same)
  then show "generatePattern s s 0 ! k = replicate s True ! k" using k by simp
qed

lemma count_true_card: "length (filter (\<lambda>b. b) xs) = card {k. k < length xs \<and> xs ! k}"
  by (simp add: length_filter_conv_card)

lemma generatePattern_true_set:
  assumes "0 < p" "0 < s"
  shows "{k. k < s \<and> generatePattern s p 0 ! k}
       = (\<lambda>j. nat \<lfloor>index_at (fdiv (of_nat s) (of_nat p)) j\<rfloor> mod s) ` {..<p}"
proof -
  have "k < s \<and> generatePattern s p 0 ! k \<longleftrightarrow>
        k \<in> (\<lambda>j. nat \<lfloor>index_at (fdiv (of_nat s) (of_nat p)) j\<rfloor> mod s) ` {..<p}" for k
  proof (cases "k < s")
    case True
    then show ?thesis using assms(1) by (auto simp: generatePattern_nth)
  next
    case False
    then show ?thesis using assms(2) by (auto simp: not_less dest: leD)
  qed
  then show ?thesis by blast
qed

lemma ratio_ge:
  fixes P S D :: rat
  assumes "1 \<le> P" "P + 1 \<le> S" "1 \<le> D"
  shows "1 + 1 / P \<le> D * (S / P)"
proof -
  have "(P + 1) / P \<le> S / P" using assms(1,2) by (simp add: divide_right_mono)
  moreover have "(P + 1) / P = 1 + 1 / P" using assms(1) by (simp add: field_simps)
  moreover have "1 * (S / P) \<le> D * (S / P)"
    using assms by (intro mult_right_mono) simp_all
  ultimately show ?thesis by simp
qed

lemma slack_le:
  fixes P C K :: rat
  assumes "1 \<le> P" "0 \<le> C" "2 * P * P * C \<le> 1" "K \<le> 2 * P"
  shows "K * C \<le> 1 / P"
proof -
  have "K * C \<le> 2 * P * C" using assms(2,4) by (rule mult_right_mono[rotated])
  also have "\<dots> = (2 * P * P * C) / P" using assms(1) by simp
  also have "\<dots> \<le> 1 / P" by (rule divide_right_mono[OF assms(3)]) (use assms(1) in simp)
  finally show ?thesis .
qed

lemma sparse_spacing:
  fixes s p :: nat
  assumes "0 < p" "p < s" "2 * p * p * (2 * s + 2) \<le> 2 ^ 53" "j < p"
  shows "i < j \<Longrightarrow> index_at (fdiv (of_nat s) (of_nat p)) i + 1 \<le> index_at (fdiv (of_nat s) (of_nat p)) j"
    and "index_at (fdiv (of_nat s) (of_nat p)) j < of_nat s"
    and "0 \<le> index_at (fdiv (of_nat s) (of_nat p)) j"
proof -
  define P S J r c :: rat where "P = of_nat p" and "S = of_nat s" and "J = of_nat j"
    and "r = S / P" and "c = of_nat (2 * s + 2) / 2 ^ 53"
  let ?idx = "index_at (fdiv (of_nat s) (of_nat p))"
  have s: "0 < s" using assms by simp
  have c1: "p * (2 * s + 2) \<le> 2 ^ 53"
  proof -
    have "p * (2 * s + 2) * 1 \<le> p * (2 * s + 2) * (2 * p)" using assms(1) by (intro mult_le_mono2) simp
    also have "\<dots> = 2 * p * p * (2 * s + 2)" by (simp add: algebra_simps)
    finally show ?thesis using assms(3) by simp
  qed
  have err: "\<bar>?idx k - of_nat k * r\<bar> \<le> of_nat k * c" "0 \<le> ?idx k" if "k \<le> p" for k
    using index_at_error[OF s assms(1) c1 that] by (simp_all add: r_def S_def P_def c_def)
  have P1: "1 \<le> P" using assms(1) by (simp add: P_def)
  have PS: "P + 1 \<le> S"
  proof -
    have "(of_nat (p + 1) :: rat) \<le> of_nat s" using assms(2) by (simp only: of_nat_le_iff)
    then show ?thesis by (simp add: P_def S_def)
  qed
  have c0: "0 \<le> c" by (simp add: c_def)
  have cc: "2 * P * P * c \<le> 1"
  proof -
    have "2 * P * P * c = of_nat (2 * p * p * (2 * s + 2)) / 2 ^ 53"
      by (simp add: P_def c_def algebra_simps)
    also have "\<dots> \<le> 1" using assms(3) by (rule cast_bound)
    finally show ?thesis .
  qed
  have JP: "J + 1 \<le> P"
  proof -
    have "(of_nat (j + 1) :: rat) \<le> of_nat p" using assms(4) by (simp only: of_nat_le_iff)
    then show ?thesis by (simp add: J_def P_def)
  qed
  have J0: "0 \<le> J" by (simp add: J_def)
  have r1: "1 + 1 / P \<le> r" using ratio_ge[OF P1 PS, of 1] by (simp add: r_def)
  have Pr: "P * r = S" using P1 by (simp add: r_def)
  have Jc: "J * c \<le> 1 / P" using JP J0 P1 by (intro slack_le[OF P1 c0 cc]) linarith
  have ej: "\<bar>?idx j - J * r\<bar> \<le> J * c" using err(1)[of j] assms(4) by (simp add: J_def)
  show "0 \<le> ?idx j" using err(2)[of j] assms(4) by simp
  show "?idx j < of_nat s"
  proof -
    have "J * r \<le> (P - 1) * r" using JP r1 P1 by (intro mult_right_mono) (linarith, simp add: r_def S_def P_def)
    also have "\<dots> = S - r" using Pr by (simp add: algebra_simps)
    finally have "J * r \<le> S - r" .
    moreover have "0 < 1 / P" using P1 by simp
    ultimately have "?idx j < S" using ej Jc r1 by linarith
    then show ?thesis by (simp add: S_def)
  qed
  show "?idx i + 1 \<le> ?idx j" if "i < j"
  proof -
    define I :: rat where "I = of_nat i"
    have IJ: "I + 1 \<le> J"
    proof -
      have "(of_nat (i + 1) :: rat) \<le> of_nat j" using that by (simp only: of_nat_le_iff)
      then show ?thesis by (simp add: I_def J_def)
    qed
    have I0: "0 \<le> I" by (simp add: I_def)
    have ei: "\<bar>?idx i - I * r\<bar> \<le> I * c" using err(1)[of i] that assms(4) by (simp add: I_def)
    have "1 + 1 / P \<le> (J - I) * r" using ratio_ge[OF P1 PS, of "J - I"] IJ by (simp add: r_def)
    moreover have "(J - I) * r = J * r - I * r" by (simp add: algebra_simps)
    moreover have "(I + J) * c \<le> 1 / P" using IJ JP I0 by (intro slack_le[OF P1 c0 cc]) linarith
    moreover have "(I + J) * c = I * c + J * c" by (simp add: algebra_simps)
    ultimately show ?thesis using ei ej by linarith
  qed
qed

lemma count_sparse:
  fixes s p :: nat
  assumes "0 < p" "p < s" "2 * p * p * (2 * s + 2) \<le> 2 ^ 53"
  shows "length (filter (\<lambda>b. b) (generatePattern s p 0)) = p"
proof -
  let ?idx = "index_at (fdiv (of_nat s) (of_nat p))"
  let ?F = "\<lambda>j. nat \<lfloor>?idx j\<rfloor> mod s"
  have s: "0 < s" using assms by simp
  have small: "nat \<lfloor>?idx j\<rfloor> < s" if "j < p" for j
  proof -
    have "?idx j < of_nat s" "0 \<le> ?idx j" using sparse_spacing(2,3)[OF assms that] by simp_all
    then have "\<lfloor>?idx j\<rfloor> < int s" "0 \<le> \<lfloor>?idx j\<rfloor>" by (simp_all add: floor_less_iff)
    then show ?thesis by (simp add: nat_less_iff)
  qed
  have less: "nat \<lfloor>?idx i\<rfloor> < nat \<lfloor>?idx j\<rfloor>" if "i < j" "j < p" for i j
  proof -
    have "?idx i + 1 \<le> ?idx j" using sparse_spacing(1)[OF assms that(2) that(1)] .
    then have "\<lfloor>?idx i + 1\<rfloor> \<le> \<lfloor>?idx j\<rfloor>" by (rule floor_mono)
    then have a: "\<lfloor>?idx i\<rfloor> + 1 \<le> \<lfloor>?idx j\<rfloor>" by simp
    have "0 \<le> ?idx i" using sparse_spacing(3)[OF assms, of i] that by simp
    then have b: "0 \<le> \<lfloor>?idx i\<rfloor>" by simp
    from a b show ?thesis by linarith
  qed
  have "inj_on ?F {..<p}"
  proof (rule linorder_inj_onI)
    fix i j assume "i < j" "i \<in> {..<p}" "j \<in> {..<p}"
    then have jp: "j < p" and ip: "i < p" by simp_all
    have "?F i = nat \<lfloor>?idx i\<rfloor>" "?F j = nat \<lfloor>?idx j\<rfloor>"
      using small[OF ip] small[OF jp] by (simp_all only: mod_less)
    moreover have "nat \<lfloor>?idx i\<rfloor> < nat \<lfloor>?idx j\<rfloor>" by (rule less[OF \<open>i < j\<close> jp])
    ultimately show "?F i \<noteq> ?F j" by linarith
  qed auto
  then have "card (?F ` {..<p}) = p" by (simp add: card_image)
  then show ?thesis
    by (simp add: count_true_card generatePattern_true_set[OF assms(1) s])
qed

text \<open>
  Claim C2. For \<open>steps\<close> in \<open>[1, 32]\<close> and \<open>pulses\<close> in \<open>[0, steps]\<close>,
  \<^verbatim>\<open>generatePattern(steps, pulses, 0)\<close> has \<open>steps\<close> entries, \<open>pulses\<close> of them true:
  consecutive values of the running index lie at least one apart and stay below
  \<open>steps\<close>, whatever the rounding, so no entry is set twice.
\<close>

theorem generatePattern_length_and_count:
  assumes "1 \<le> s" "s \<le> 32" "p \<le> s"
  shows "length (generatePattern s p 0) = s
       \<and> length (filter (\<lambda>b. b) (generatePattern s p 0)) = p"
proof -
  consider "p = 0" | "p = s" | "0 < p" "p < s" using assms(3) by linarith
  then have "length (filter (\<lambda>b. b) (generatePattern s p 0)) = p"
  proof cases
    case 1
    then show ?thesis by (simp add: generatePattern_def)
  next
    case 2
    have "s < 2 ^ 53" using assms(2) by simp
    then show ?thesis using assms(1) 2 by (simp add: generatePattern_full)
  next
    case 3
    have p32: "p \<le> 32" using 3 assms(2) by simp
    from p32 p32 have "p * p \<le> 32 * 32" by (rule mult_le_mono)
    moreover have "2 * s + 2 \<le> 66" using assms(2) by simp
    ultimately have "(p * p) * (2 * s + 2) \<le> (32 * 32) * 66" by (rule mult_le_mono)
    then have "2 * p * p * (2 * s + 2) \<le> 2 ^ 53" by simp
    with 3 show ?thesis by (rule count_sparse)
  qed
  then show ?thesis by simp
qed

theorem generatePattern_length_and_count_witness:
  "(1::nat) \<le> 12 \<and> (12::nat) \<le> 32 \<and> (9::nat) \<le> 12 \<and> length (generatePattern 12 9 0) = 12
     \<and> length (filter (\<lambda>b. b) (generatePattern 12 9 0)) = 9"
  using generatePattern_length_and_count[of 12 9] by simp

section \<open>Dense patterns\<close>

lemma floors_cover:
  fixes F :: "nat \<Rightarrow> nat"
  assumes "F 0 = 0" "\<And>j. j < n \<Longrightarrow> F (Suc j) \<le> F j + 1" "k \<le> F n"
  shows "\<exists>j\<le>n. F j = k"
  using assms(2,3)
proof (induction n)
  case 0
  then show ?case using assms(1) by simp
next
  case (Suc n)
  show ?case
  proof (cases "k \<le> F n")
    case True
    then have "\<exists>j\<le>n. F j = k" using Suc.prems(1) by (intro Suc.IH) simp_all
    then show ?thesis using le_Suc_eq by blast
  next
    case False
    moreover have "F (Suc n) \<le> F n + 1" using Suc.prems(1) by simp
    ultimately have "F (Suc n) = k" using Suc.prems(2) by simp
    then show ?thesis by blast
  qed
qed

lemma dense_steps:
  fixes s p :: nat
  assumes "0 < s" "s < p" "2 * p * p * (2 * s + 2) \<le> (p - s) * 2 ^ 53"
  shows "Suc j < p \<Longrightarrow> index_at (fdiv (of_nat s) (of_nat p)) (Suc j)
                       \<le> index_at (fdiv (of_nat s) (of_nat p)) j + 1"
    and "of_nat s - 1 \<le> index_at (fdiv (of_nat s) (of_nat p)) (p - 1)"
    and "j \<le> p \<Longrightarrow> 0 \<le> index_at (fdiv (of_nat s) (of_nat p)) j"
proof -
  define P S r c :: rat where "P = of_nat p" and "S = of_nat s"
    and "r = S / P" and "c = of_nat (2 * s + 2) / 2 ^ 53"
  let ?idx = "index_at (fdiv (of_nat s) (of_nat p))"
  have p: "0 < p" using assms by simp
  have c1: "p * (2 * s + 2) \<le> 2 ^ 53"
  proof -
    have "p * (2 * p * (2 * s + 2)) = 2 * p * p * (2 * s + 2)" by (simp add: algebra_simps)
    also have "\<dots> \<le> (p - s) * 2 ^ 53" by (rule assms(3))
    also have "\<dots> \<le> p * 2 ^ 53" by (rule mult_le_mono1) simp
    finally have "2 * p * (2 * s + 2) \<le> 2 ^ 53" using p by (simp only: mult_le_cancel1)
    then show ?thesis by simp
  qed
  have err: "\<bar>?idx k - of_nat k * r\<bar> \<le> of_nat k * c" "0 \<le> ?idx k" if "k \<le> p" for k
    using index_at_error[OF assms(1) p c1 that] by (simp_all add: r_def S_def P_def c_def)
  show "0 \<le> ?idx j" if "j \<le> p" using err(2)[OF that] .
  have P1: "1 \<le> P" using p by (simp add: P_def)
  have c0: "0 \<le> c" by (simp add: c_def)
  have PS: "P - S = of_nat (p - s)" using assms(2) by (simp add: P_def S_def of_nat_diff)
  have "2 * P * P * c = of_nat (2 * p * p * (2 * s + 2)) / 2 ^ 53"
    by (simp add: P_def c_def algebra_simps)
  also have "\<dots> \<le> of_nat ((p - s) * 2 ^ 53) / 2 ^ 53"
    using assms(3) by (intro divide_right_mono) (simp_all only: of_nat_le_iff, simp)
  also have "\<dots> = P - S" by (simp add: PS)
  finally have cc: "2 * P * P * c \<le> P - S" .
  have slack: "2 * P * c \<le> 1 - r"
  proof -
    have "2 * P * c = (2 * P * P * c) / P" using P1 by simp
    also have "\<dots> \<le> (P - S) / P" by (rule divide_right_mono[OF cc]) (use P1 in simp)
    also have "\<dots> = 1 - r" using P1 by (simp add: r_def field_simps)
    finally show ?thesis .
  qed
  have Pr: "P * r = S" using P1 by (simp add: r_def)
  show "?idx (Suc j) \<le> ?idx j + 1" if "Suc j < p"
  proof -
    define J :: rat where "J = of_nat j"
    have JP: "J + 1 \<le> P"
    proof -
      have "(of_nat (Suc j) :: rat) \<le> of_nat p" using that by (simp only: of_nat_le_iff)
      then show ?thesis by (simp add: J_def P_def)
    qed
    have J0: "0 \<le> J" by (simp add: J_def)
    have e0: "\<bar>?idx j - J * r\<bar> \<le> J * c" using err(1)[of j] that by (simp add: J_def)
    have e1: "\<bar>?idx (Suc j) - (J + 1) * r\<bar> \<le> (J + 1) * c"
      using err(1)[of "Suc j"] that by (simp add: J_def add.commute)
    have "(2 * J + 1) * c \<le> 2 * P * c" using JP c0 by (intro mult_right_mono) linarith+
    moreover have "(2 * J + 1) * c = J * c + (J + 1) * c" by (simp add: algebra_simps)
    moreover have "(J + 1) * r = J * r + r" by (simp add: algebra_simps)
    ultimately show ?thesis using e0 e1 slack by linarith
  qed
  show "of_nat s - 1 \<le> ?idx (p - 1)"
  proof -
    have e: "\<bar>?idx (p - 1) - (P - 1) * r\<bar> \<le> (P - 1) * c"
      using err(1)[of "p - 1"] p by (simp add: P_def of_nat_diff)
    have "(P - 1) * c \<le> 2 * P * c" using P1 c0 by (intro mult_right_mono) linarith+
    moreover have "(P - 1) * r = S - r" using Pr by (simp add: algebra_simps)
    ultimately have "S - 1 \<le> ?idx (p - 1)" using e slack by linarith
    then show ?thesis by (simp add: S_def)
  qed
qed

lemma dense_all_true:
  fixes s p :: nat
  assumes "0 < s" "s < p" "2 * p * p * (2 * s + 2) \<le> (p - s) * 2 ^ 53"
  shows "generatePattern s p 0 = replicate s True"
proof (rule nth_equalityI)
  show "length (generatePattern s p 0) = length (replicate s True)" by simp
next
  fix k assume "k < length (generatePattern s p 0)"
  then have k: "k < s" by simp
  let ?idx = "index_at (fdiv (of_nat s) (of_nat p))"
  define F where "F j = nat \<lfloor>?idx j\<rfloor>" for j
  have p: "0 < p" using assms by simp
  have F0: "F 0 = 0" by (simp add: F_def)
  have step: "F (Suc j) \<le> F j + 1" if "j < p - 1" for j
  proof -
    from that have sj: "Suc j < p" by simp
    have "?idx (Suc j) \<le> ?idx j + 1" using dense_steps(1)[OF assms sj] .
    then have "\<lfloor>?idx (Suc j)\<rfloor> \<le> \<lfloor>?idx j + 1\<rfloor>" by (rule floor_mono)
    then have a: "\<lfloor>?idx (Suc j)\<rfloor> \<le> \<lfloor>?idx j\<rfloor> + 1" by simp
    have "0 \<le> ?idx j" using dense_steps(3)[OF assms, of j] sj by simp
    then have b: "0 \<le> \<lfloor>?idx j\<rfloor>" by simp
    from a b show ?thesis unfolding F_def by linarith
  qed
  have "of_nat s - 1 \<le> ?idx (p - 1)" using dense_steps(2)[OF assms] .
  then have "int s - 1 \<le> \<lfloor>?idx (p - 1)\<rfloor>" by (simp add: le_floor_iff)
  then have "k \<le> F (p - 1)" using k unfolding F_def by linarith
  with F0 step obtain j where j: "j \<le> p - 1" "F j = k" using floors_cover[of F "p - 1" k] by blast
  then have "j < p" using p by simp
  moreover have "nat \<lfloor>?idx j\<rfloor> mod s = k" using j(2) k by (simp add: F_def)
  ultimately have "generatePattern s p 0 ! k" using generatePattern_nth[OF p k] by blast
  then show "generatePattern s p 0 ! k = replicate s True ! k" using k by simp
qed

lemma dense_condition:
  fixes s p :: nat
  assumes "s \<le> 65536" "s < p" "p \<le> 4294967296"
  shows "2 * p * p * (2 * s + 2) \<le> (p - s) * 2 ^ 53"
proof (cases "2 * s \<le> p")
  case True
  have "2 * s + 2 \<le> 131074" using assms(1) by simp
  with assms(3) have "p * (2 * s + 2) \<le> 4294967296 * 131074" by (rule mult_le_mono)
  then have "4 * (p * (2 * s + 2)) \<le> 2 ^ 53" by simp
  then have "p * (4 * (p * (2 * s + 2))) \<le> p * 2 ^ 53" by (rule mult_le_mono2)
  moreover have "p \<le> 2 * (p - s)" using True by simp
  then have "p * 2 ^ 53 \<le> (2 * (p - s)) * 2 ^ 53" by (rule mult_le_mono1)
  ultimately have "2 * (2 * p * p * (2 * s + 2)) \<le> 2 * ((p - s) * 2 ^ 53)"
    by (simp add: algebra_simps)
  then show ?thesis by simp
next
  case False
  then have p: "p \<le> 131072" using assms(1) by simp
  from p p have "p * p \<le> 131072 * 131072" by (rule mult_le_mono)
  moreover have "2 * s + 2 \<le> 131074" using assms(1) by simp
  ultimately have "(p * p) * (2 * s + 2) \<le> (131072 * 131072) * 131074" by (rule mult_le_mono)
  then have "2 * p * p * (2 * s + 2) \<le> 1 * 2 ^ 53" by simp
  also have "\<dots> \<le> (p - s) * 2 ^ 53" using assms(2) by (intro mult_le_mono1) simp
  finally show ?thesis .
qed

lemma newPattern_full:
  "0 < s \<Longrightarrow> s < 2 ^ 53 \<Longrightarrow> s \<le> p \<Longrightarrow> newPattern s p 0 = replicate s True"
  by (simp add: newPattern_def min_absorb2 generatePattern_full)

text \<open>
  Claim C6. With no pulse every entry stays false, whatever \<open>steps\<close> is. With
  \<open>pulses = steps\<close> the increment is exactly one and every entry is set, for every
  \<open>steps\<close> below \<open>2 ^ 53\<close>, which every array length is. With \<open>pulses > steps\<close>
  the increment is below one, the floor of the index never skips an entry and reaches
  \<open>steps - 1\<close> before the loop ends, so every entry is set; this is proved for \<open>steps\<close> up
  to \<open>65536\<close> and \<open>pulses\<close> up to \<open>2 ^ 32\<close>, where the rounding of the running index
  cannot matter. The \<^verbatim>\<open>Track\<close> effect, the one caller, passes
  \<^verbatim>\<open>Math.min(pulses, steps)\<close>, so through it every \<open>pulses \<ge> steps\<close> is the case
  \<open>pulses = steps\<close>. The Steps slider keeps \<open>steps\<close> in \<open>[1, 32]\<close>.
\<close>

theorem generatePattern_edge_cases:
  assumes "1 \<le> s"
  shows "generatePattern s 0 0 = replicate s False
       \<and> (s < 2 ^ 53 \<longrightarrow> generatePattern s s 0 = replicate s True)
       \<and> (s \<le> 65536 \<longrightarrow> s \<le> p \<longrightarrow> p \<le> 4294967296 \<longrightarrow> generatePattern s p 0 = replicate s True)
       \<and> (s < 2 ^ 53 \<longrightarrow> s \<le> p \<longrightarrow> newPattern s p 0 = replicate s True)"
proof -
  from assms have s: "0 < s" by simp
  have a: "generatePattern s 0 0 = replicate s False" by (simp add: generatePattern_def)
  have b: "generatePattern s s 0 = replicate s True" if "s < 2 ^ 53"
    using s that by (rule generatePattern_full)
  have c: "generatePattern s p 0 = replicate s True" if "s \<le> 65536" "s \<le> p" "p \<le> 4294967296"
  proof (cases "p = s")
    case True
    have "s < 2 ^ 53" using that(1) by simp
    with b True show ?thesis by simp
  next
    case False
    with that have sp: "s < p" by simp
    show ?thesis using s sp dense_condition[OF that(1) sp that(3)] by (rule dense_all_true)
  qed
  have d: "newPattern s p 0 = replicate s True" if "s < 2 ^ 53" "s \<le> p"
    using s that by (rule newPattern_full)
  from a b c d show ?thesis by blast
qed

theorem generatePattern_edge_cases_witness:
  "(1::nat) \<le> 4 \<and> (4::nat) < 2 ^ 53 \<and> (4::nat) \<le> 65536 \<and> (4::nat) \<le> 6 \<and> (6::nat) \<le> 4294967296
   \<and> generatePattern 4 0 0 = replicate 4 False \<and> generatePattern 4 4 0 = replicate 4 True
   \<and> generatePattern 4 6 0 = replicate 4 True \<and> newPattern 4 6 0 = replicate 4 True"
  using generatePattern_edge_cases[of 4 6] by simp

section \<open>A long pattern that is not filled\<close>

text \<open>
  Inside one binade the representable values form a grid, and adding the same increment
  moves the index by the same whole number of grid steps each time. This gives the index of a
  long loop exactly, from one checkpoint per binade.
\<close>

lemma index_run:
  fixes a d n :: nat and e :: int and inc :: rat
  assumes x: "index_at inc j = of_nat a * 2 powi (e - 52)"
    and a: "2 ^ 52 \<le> a" and e: "- 1022 \<le> e" and inc: "0 < inc"
    and near: "\<bar>inc / 2 powi (e - 52) - of_nat d\<bar> < 1 / 2
         \<or> \<bar>inc / 2 powi (e - 52) - of_nat d\<bar> \<le> 1 / 2 \<and> even a \<and> even d"
  shows "a + n * d < 2 ^ 53 \<Longrightarrow> index_at inc (j + n) = of_nat (a + n * d) * 2 powi (e - 52)"
proof (induction n)
  case 0
  then show ?case using x by simp
next
  case (Suc n)
  define u :: rat where "u = 2 powi (e - 52)"
  define b where "b = a + n * d"
  have u: "0 < u" by (simp add: u_def)
  have b53: "b + d < 2 ^ 53" using Suc.prems by (simp add: b_def algebra_simps)
  then have "a + n * d < 2 ^ 53" by (simp add: b_def)
  then have xb: "index_at inc (j + n) = of_nat b * u" using Suc.IH by (simp add: b_def u_def)
  have b52: "2 ^ 52 \<le> b" using a by (simp add: b_def)
  let ?y = "of_nat b * u + inc"
  have q: "?y / u = of_nat b + inc / u" using u by (simp add: field_simps)
  have pe: "(2::rat) powi e = 2 ^ 52 * u"
    using power_int_add[of "2::rat" 52 "e - 52"] by (simp add: u_def)
  have pe1: "(2::rat) powi (e + 1) = 2 ^ 53 * u"
    using power_int_add[of "2::rat" 53 "e - 52"] by (simp add: u_def ac_simps)
  have nearle: "\<bar>inc / u - of_nat d\<bar> \<le> 1 / 2" using near by (auto simp: u_def)
  have y0: "0 < ?y" using u inc by (simp add: add_nonneg_pos)
  have lo: "2 powi e \<le> ?y"
  proof -
    have "(2::rat) ^ 52 \<le> of_nat b" using b52 by (metis of_nat_le_iff of_nat_numeral of_nat_power)
    then have "2 ^ 52 * u \<le> of_nat b * u" using u by (simp add: mult_right_mono)
    with inc show ?thesis unfolding pe by linarith
  qed
  have hi: "?y < 2 powi (e + 1)"
  proof -
    have "(of_nat (b + d + 1) :: rat) \<le> of_nat (2 ^ 53)" using b53 by (simp only: of_nat_le_iff)
    then have "(of_nat b :: rat) + of_nat d + 1 \<le> 2 ^ 53" by simp
    with nearle have "of_nat b + inc / u < 2 ^ 53" by linarith
    then have "?y / u < 2 ^ 53" by (simp only: q)
    then show ?thesis unfolding pe1 using u by (simp add: pos_divide_less_eq)
  qed
  have rn: "\<bar>?y / u - of_int (int (b + d))\<bar> < 1 / 2
         \<or> \<bar>?y / u - of_int (int (b + d))\<bar> \<le> 1 / 2 \<and> even (int (b + d))"
  proof -
    have eq: "?y / u - of_int (int (b + d)) = inc / u - of_nat d" unfolding q by simp
    have ev: "even a \<and> even d \<Longrightarrow> even (int (b + d))" by (simp add: b_def)
    have near': "\<bar>inc / u - of_nat d\<bar> < 1 / 2
         \<or> \<bar>inc / u - of_nat d\<bar> \<le> 1 / 2 \<and> even a \<and> even d"
      using near by (simp only: u_def)
    show ?thesis unfolding eq using near' ev by blast
  qed
  have "fl64 ?y = of_int (int (b + d)) * u"
    unfolding u_def by (rule fl64_round[OF y0[unfolded u_def] lo[unfolded u_def] hi[unfolded u_def] e rn[unfolded u_def]])
  then have "index_at inc (j + Suc n) = of_nat (b + d) * u"
    by (simp add: xb fadd_def)
  then show ?case by (simp add: b_def u_def algebra_simps)
qed

lemma large_increment: "fdiv 524289 524290 = 137438691329 / 137438953472"
  unfolding fdiv_def by (subst fl64_round[where e="-1" and n=9007182074937344]) simp_all

lemma large_last_index: "index_at (137438691329 / 137438953472) 524289 = 1099511627773 / 2097152"
proof -
  let ?inc = "137438691329 / 137438953472"
  have c0: "index_at ?inc 0 = 0" by simp
  have "fl64 (0 + ?inc) = 137438691329 / 137438953472"
    by (subst fl64_round[where e="-1" and n=9007182074937344]) simp_all
  then have "index_at ?inc (Suc 0) = 137438691329 / 137438953472"
    unfolding index_at.simps c0 fadd_def .
  then have c1: "index_at ?inc 1 = 137438691329 / 137438953472" by (simp del: index_at.simps)
  have "fl64 (137438691329 / 137438953472 + ?inc) = 137438691329 / 68719476736"
    by (subst fl64_round[where e="0" and n=9007182074937344]) simp_all
  then have "index_at ?inc (Suc 1) = 137438691329 / 68719476736"
    unfolding index_at.simps c1 fadd_def .
  then have c2: "index_at ?inc 2 = 137438691329 / 68719476736" by (simp add: numeral_2_eq_2 del: index_at.simps)
  have "fl64 (137438691329 / 68719476736 + ?inc) = 412316073987 / 137438953472"
    by (subst fl64_round[where e="1" and n=6755386556203008]) simp_all
  then have "index_at ?inc (Suc 2) = 412316073987 / 137438953472"
    unfolding index_at.simps c2 fadd_def .
  then have c3: "index_at ?inc 3 = 412316073987 / 137438953472" by (simp del: index_at.simps)
  have c4: "index_at ?inc 4 = 137438691329 / 34359738368"
    using index_run[of ?inc 3 6755386556203008 "1" 2251795518734336 1] by (simp add: c3 del: index_at.simps)
  have "fl64 (137438691329 / 34359738368 + ?inc) = 687193456645 / 137438953472"
    by (subst fl64_round[where e="2" and n=5629488796835840]) simp_all
  then have "index_at ?inc (Suc 4) = 687193456645 / 137438953472"
    unfolding index_at.simps c4 fadd_def .
  then have c5: "index_at ?inc 5 = 687193456645 / 137438953472" by (simp del: index_at.simps)
  have c8: "index_at ?inc 8 = 137438691329 / 17179869184"
    using index_run[of ?inc 5 5629488796835840 "2" 1125897759367168 3] by (simp add: c5 del: index_at.simps)
  have "fl64 (137438691329 / 17179869184 + ?inc) = 1236948221961 / 137438953472"
    by (subst fl64_round[where e="3" and n=5066539917152256]) simp_all
  then have "index_at ?inc (Suc 8) = 1236948221961 / 137438953472"
    unfolding index_at.simps c8 fadd_def .
  then have c9: "index_at ?inc 9 = 1236948221961 / 137438953472" by (simp del: index_at.simps)
  have c16: "index_at ?inc 16 = 137438691329 / 8589934592"
    using index_run[of ?inc 9 5066539917152256 "3" 562948879683584 7] by (simp add: c9 del: index_at.simps)
  have "fl64 (137438691329 / 8589934592 + ?inc) = 2336457752593 / 137438953472"
    by (subst fl64_round[where e="4" and n=4785065477310464]) simp_all
  then have "index_at ?inc (Suc 16) = 2336457752593 / 137438953472"
    unfolding index_at.simps c16 fadd_def .
  then have c17: "index_at ?inc 17 = 2336457752593 / 137438953472" by (simp del: index_at.simps)
  have c32: "index_at ?inc 32 = 137438691329 / 4294967296"
    using index_run[of ?inc 17 4785065477310464 "4" 281474439841792 15] by (simp add: c17 del: index_at.simps)
  have "fl64 (137438691329 / 4294967296 + ?inc) = 4535476813857 / 137438953472"
    by (subst fl64_round[where e="5" and n=4644328257389568]) simp_all
  then have "index_at ?inc (Suc 32) = 4535476813857 / 137438953472"
    unfolding index_at.simps c32 fadd_def .
  then have c33: "index_at ?inc 33 = 4535476813857 / 137438953472" by (simp del: index_at.simps)
  have c64: "index_at ?inc 64 = 137438691329 / 2147483648"
    using index_run[of ?inc 33 4644328257389568 "5" 140737219920896 31] by (simp add: c33 del: index_at.simps)
  have "fl64 (137438691329 / 2147483648 + ?inc) = 8933514936385 / 137438953472"
    by (subst fl64_round[where e="6" and n=4573959647429120]) simp_all
  then have "index_at ?inc (Suc 64) = 8933514936385 / 137438953472"
    unfolding index_at.simps c64 fadd_def .
  then have c65: "index_at ?inc 65 = 8933514936385 / 137438953472" by (simp del: index_at.simps)
  have c128: "index_at ?inc 128 = 137438691329 / 1073741824"
    using index_run[of ?inc 65 4573959647429120 "6" 70368609960448 63] by (simp add: c65 del: index_at.simps)
  have "fl64 (137438691329 / 1073741824 + ?inc) = 17729591181441 / 137438953472"
    by (subst fl64_round[where e="7" and n=4538775342448896]) simp_all
  then have "index_at ?inc (Suc 128) = 17729591181441 / 137438953472"
    unfolding index_at.simps c128 fadd_def .
  then have c129: "index_at ?inc 129 = 17729591181441 / 137438953472" by (simp del: index_at.simps)
  have c256: "index_at ?inc 256 = 137438691329 / 536870912"
    using index_run[of ?inc 129 4538775342448896 "7" 35184304980224 127] by (simp add: c129 del: index_at.simps)
  have "fl64 (137438691329 / 536870912 + ?inc) = 35321743671553 / 137438953472"
    by (subst fl64_round[where e="8" and n=4521183189958784]) simp_all
  then have "index_at ?inc (Suc 256) = 35321743671553 / 137438953472"
    unfolding index_at.simps c256 fadd_def .
  then have c257: "index_at ?inc 257 = 35321743671553 / 137438953472" by (simp del: index_at.simps)
  have c512: "index_at ?inc 512 = 137438691329 / 268435456"
    using index_run[of ?inc 257 4521183189958784 "8" 17592152490112 255] by (simp add: c257 del: index_at.simps)
  have "fl64 (137438691329 / 268435456 + ?inc) = 70506048651777 / 137438953472"
    by (subst fl64_round[where e="9" and n=4512387113713728]) simp_all
  then have "index_at ?inc (Suc 512) = 70506048651777 / 137438953472"
    unfolding index_at.simps c512 fadd_def .
  then have c513: "index_at ?inc 513 = 70506048651777 / 137438953472" by (simp del: index_at.simps)
  have c1024: "index_at ?inc 1024 = 137438691329 / 134217728"
    using index_run[of ?inc 513 4512387113713728 "9" 8796076245056 511] by (simp add: c513 del: index_at.simps)
  have "fl64 (137438691329 / 134217728 + ?inc) = 140874658612225 / 137438953472"
    by (subst fl64_round[where e="10" and n=4507989075591200]) simp_all
  then have "index_at ?inc (Suc 1024) = 140874658612225 / 137438953472"
    unfolding index_at.simps c1024 fadd_def .
  then have c1025: "index_at ?inc 1025 = 140874658612225 / 137438953472" by (simp del: index_at.simps)
  have c2048: "index_at ?inc 2048 = 137438691329 / 67108864"
    using index_run[of ?inc 1025 4507989075591200 "10" 4398038122528 1023] by (simp add: c1025 del: index_at.simps)
  have "fl64 (137438691329 / 67108864 + ?inc) = 281611878533121 / 137438953472"
    by (subst fl64_round[where e="11" and n=4505790056529936]) simp_all
  then have "index_at ?inc (Suc 2048) = 281611878533121 / 137438953472"
    unfolding index_at.simps c2048 fadd_def .
  then have c2049: "index_at ?inc 2049 = 281611878533121 / 137438953472" by (simp del: index_at.simps)
  have c4096: "index_at ?inc 4096 = 137438691329 / 33554432"
    using index_run[of ?inc 2049 4505790056529936 "11" 2199019061264 2047] by (simp add: c2049 del: index_at.simps)
  have "fl64 (137438691329 / 33554432 + ?inc) = 563086318374913 / 137438953472"
    by (subst fl64_round[where e="12" and n=4504690546999304]) simp_all
  then have "index_at ?inc (Suc 4096) = 563086318374913 / 137438953472"
    unfolding index_at.simps c4096 fadd_def .
  then have c4097: "index_at ?inc 4097 = 563086318374913 / 137438953472" by (simp del: index_at.simps)
  have c8192: "index_at ?inc 8192 = 137438691329 / 16777216"
    using index_run[of ?inc 4097 4504690546999304 "12" 1099509530632 4095] by (simp add: c4097 del: index_at.simps)
  have "fl64 (137438691329 / 16777216 + ?inc) = 1126035198058497 / 137438953472"
    by (subst fl64_round[where e="13" and n=4504140792233988]) simp_all
  then have "index_at ?inc (Suc 8192) = 1126035198058497 / 137438953472"
    unfolding index_at.simps c8192 fadd_def .
  then have c8193: "index_at ?inc 8193 = 1126035198058497 / 137438953472" by (simp del: index_at.simps)
  have c16384: "index_at ?inc 16384 = 137438691329 / 8388608"
    using index_run[of ?inc 8193 4504140792233988 "13" 549754765316 8191] by (simp add: c8193 del: index_at.simps)
  have "fl64 (137438691329 / 8388608 + ?inc) = 2251932957425665 / 137438953472"
    by (subst fl64_round[where e="14" and n=4503865914851330]) simp_all
  then have "index_at ?inc (Suc 16384) = 2251932957425665 / 137438953472"
    unfolding index_at.simps c16384 fadd_def .
  then have c16385: "index_at ?inc 16385 = 2251932957425665 / 137438953472" by (simp del: index_at.simps)
  have c32768: "index_at ?inc 32768 = 137438691329 / 4194304"
    using index_run[of ?inc 16385 4503865914851330 "14" 274877382658 16383] by (simp add: c16385 del: index_at.simps)
  have "fl64 (137438691329 / 4194304 + ?inc) = 4503728476160001 / 137438953472"
    by (subst fl64_round[where e="15" and n=4503728476160001]) simp_all
  then have "index_at ?inc (Suc 32768) = 4503728476160001 / 137438953472"
    unfolding index_at.simps c32768 fadd_def .
  then have c32769: "index_at ?inc 32769 = 4503728476160001 / 137438953472" by (simp del: index_at.simps)
  have c65536: "index_at ?inc 65536 = 137438691329 / 2097152"
    using index_run[of ?inc 32769 4503728476160001 "15" 137438691329 32767] by (simp add: c32769 del: index_at.simps)
  have "fl64 (137438691329 / 2097152 + ?inc) = 137440788477 / 2097152"
    by (subst fl64_round[where e="16" and n=4503659756814336]) simp_all
  then have "index_at ?inc (Suc 65536) = 137440788477 / 2097152"
    unfolding index_at.simps c65536 fadd_def .
  then have c65537: "index_at ?inc 65537 = 137440788477 / 2097152" by (simp del: index_at.simps)
  have c131072: "index_at ?inc 131072 = 274877382657 / 2097152"
    using index_run[of ?inc 65537 4503659756814336 "16" 68719345664 65535] by (simp add: c65537 del: index_at.simps)
  have "fl64 (274877382657 / 2097152 + ?inc) = 274879479805 / 2097152"
    by (subst fl64_round[where e="17" and n=4503625397125120]) simp_all
  then have "index_at ?inc (Suc 131072) = 274879479805 / 2097152"
    unfolding index_at.simps c131072 fadd_def .
  then have c131073: "index_at ?inc 131073 = 274879479805 / 2097152" by (simp del: index_at.simps)
  have c262144: "index_at ?inc 262144 = 549754765313 / 2097152"
    using index_run[of ?inc 131073 4503625397125120 "17" 34359672832 131071] by (simp add: c131073 del: index_at.simps)
  have "fl64 (549754765313 / 2097152 + ?inc) = 549756862461 / 2097152"
    by (subst fl64_round[where e="18" and n=4503608217280512]) simp_all
  then have "index_at ?inc (Suc 262144) = 549756862461 / 2097152"
    unfolding index_at.simps c262144 fadd_def .
  then have c262145: "index_at ?inc 262145 = 549756862461 / 2097152" by (simp del: index_at.simps)
  have c524289: "index_at ?inc 524289 = 1099511627773 / 2097152"
    using index_run[of ?inc 262145 4503608217280512 "18" 17179836416 262144] by (simp add: c262145 del: index_at.simps)
  show ?thesis by (rule c524289)
qed

text \<open>
  Far beyond the lengths the component builds, the bound on \<open>pulses > steps\<close> cannot be
  dropped: the rounding adds up. For \<open>steps = 524289\<close> and \<open>pulses = 524290\<close>, which
  no slider setting reaches, the increment is
  \<open>1 - 2 powi - 19 + 2 powi - 37\<close>; from index \<open>65536\<close> on every addition is rounded
  down by \<open>2 powi - 37\<close>, the last value of the index is \<open>524288 - 3 / 2 ^ 21\<close>, and
  the entry \<open>524288\<close> is never set.
\<close>

lemma generatePattern_large_not_all_true:
  "generatePattern 524289 524290 0 \<noteq> replicate 524289 True"
proof -
  let ?inc = "137438691329 / 137438953472 :: rat"
  have bound: "(524290::nat) * (2 * 524289 + 2) \<le> 2 ^ 53" by simp
  have mono: "index_at ?inc j \<le> index_at ?inc 524289" if "j \<le> 524289" for j
    using index_at_mono[of 524289 524290 j 524289] that bound by (simp add: large_increment)
  have nonneg: "0 \<le> index_at ?inc j" if "j \<le> 524290" for j
    using index_at_error[of 524289 524290 j] that bound by (simp add: large_increment)
  have "\<not> generatePattern 524289 524290 0 ! 524288"
  proof
    assume "generatePattern 524289 524290 0 ! 524288"
    then obtain j where j: "j < 524290" "nat \<lfloor>index_at ?inc j\<rfloor> mod 524289 = 524288"
      using generatePattern_nth[of 524290 524288 524289] by (auto simp: large_increment)
    have "index_at ?inc j \<le> 1099511627773 / 2097152"
      using mono[of j] j(1) by (simp add: large_last_index)
    then have "index_at ?inc j < 524288" by simp
    then have a: "\<lfloor>index_at ?inc j\<rfloor> < 524288" by (simp add: floor_less_iff)
    have b: "0 \<le> \<lfloor>index_at ?inc j\<rfloor>" using nonneg[of j] j(1) by simp
    from a b have lt: "nat \<lfloor>index_at ?inc j\<rfloor> < 524288" by linarith
    then have "nat \<lfloor>index_at ?inc j\<rfloor> mod 524289 = nat \<lfloor>index_at ?inc j\<rfloor>" by simp
    with j(2) lt show False by simp
  qed
  moreover have "replicate 524289 True ! 524288" by simp
  ultimately show ?thesis by metis
qed

section \<open>The local step\<close>

lemma trackStep_exact:
  assumes "0 < n" "cur < 2 ^ 53" "cur * n < 2 ^ 53"
  shows "trackStep cur n = Some ((cur * n div 32) mod n)"
proof -
  have a: "fdiv (of_nat cur) 32 = of_nat cur / 2 ^ 5"
    using fl64_dyadic[OF assms(2), of 5] by (simp add: fdiv_def)
  have b: "fmul (of_nat cur / 2 ^ 5) (of_nat n) = of_nat (cur * n) / 2 ^ 5"
    using fl64_dyadic[OF assms(3), of 5] by (simp add: fmul_def)
  have "\<lfloor>(of_nat (cur * n) :: rat) / 2 ^ 5\<rfloor> = int (cur * n div 32)"
    using floor_divide_of_nat_eq[of "cur * n" 32, where ?'a = rat] by simp
  then show ?thesis using assms(1) unfolding trackStep_def a b by simp
qed

lemma trackStep_range:
  assumes "0 < n" "n \<le> 32" "cur < 32"
  shows "trackStep cur n = Some (cur * n div 32)"
proof -
  have "cur * n \<le> 31 * 32" using assms by (intro mult_mono) simp_all
  then have "cur * n < 2 ^ 53" by simp
  moreover have "cur < 2 ^ 53" using assms(3) by simp
  moreover have "cur * n div 32 < n" using assms by (simp add: less_mult_imp_div_less mult.commute)
  ultimately show ?thesis using trackStep_exact[OF assms(1)] by simp
qed

lemma trackStep_2: "cur < 32 \<Longrightarrow> trackStep cur 2 = Some (cur div 16)"
  using trackStep_range[of 2 cur] by simp

text \<open>
  Claim C5. For a track of \<open>n\<close> steps, \<open>1 \<le> n \<le> 32\<close>, the local step
  \<^verbatim>\<open>Math.floor(masterStep / 32 * n) % n\<close> takes every value below \<open>n\<close> for some master
  step below \<open>32\<close>. (Both double operations are exact here, see \<open>trackStep_exact\<close>.)
\<close>

theorem trackStep_visits_every_step:
  assumes "1 \<le> n" "n \<le> 32" "k < n"
  shows "\<exists>m<32. trackStep m n = Some k"
proof -
  define m where "m = (32 * k + n - 1) div n"
  have n: "0 < n" using assms by simp
  have up: "m * n \<le> 32 * k + n - 1" unfolding m_def by simp
  have "32 * k + n - 1 < (m + 1) * n"
    unfolding m_def using n by (metis Suc_eq_plus1 dividend_less_div_times mult.commute add.commute mult_Suc)
  then have lo: "32 * k \<le> m * n" using n by simp
  have "m < 32"
  proof (rule ccontr)
    assume "\<not> m < 32"
    then have "32 \<le> m" by simp
    then have a: "32 * n \<le> m * n" by (rule mult_le_mono1)
    have b: "32 * k + 32 \<le> 32 * n" using assms(3) by simp
    have c: "m * n + 1 \<le> 32 * k + n" using up n by simp
    show False using a b c assms(2) by linarith
  qed
  moreover have "m * n div 32 = k"
  proof -
    have "m * n < 32 * k + 32" using up assms n by linarith
    with lo show ?thesis by (simp add: div_nat_eqI mult.commute)
  qed
  ultimately show ?thesis using trackStep_range[OF n assms(2), of m] by auto
qed

theorem trackStep_visits_every_step_witness:
  "(1::nat) \<le> 5 \<and> (5::nat) \<le> 32 \<and> (3::nat) < 5 \<and> (\<exists>m<32. trackStep m 5 = Some 3)"
  using trackStep_visits_every_step[of 5 3] by simp

section \<open>The conductor\<close>

lemma keys_assign: "fst ` set (assign k v trs) = insert k (fst ` set trs)"
proof (induction trs)
  case Nil
  then show ?case by simp
next
  case (Cons a trs)
  obtain k' v' where a: "a = (k', v')" by (cases a)
  show ?case unfolding a using Cons.IH by (cases "k < k'"; cases "k = k'") auto
qed

lemma sorted_assign:
  "sorted_wrt (<) (map fst trs) \<Longrightarrow> sorted_wrt (<) (map fst (assign k v trs))"
proof (induction trs)
  case Nil
  then show ?case by simp
next
  case (Cons a trs)
  obtain k' v' where a: "a = (k', v')" by (cases a)
  have "\<forall>x\<in>set (map fst (assign k v trs)). k' < x" if "k' < k"
    using Cons.prems that by (auto simp: a keys_assign)
  then show ?case using Cons by (auto simp: a)
qed

lemma tick_tracksRef [simp]: "tracksRef (snd (tick t d st)) = tracksRef st"
  by (simp add: tick_def Let_def split: prod.splits)

lemma reachable_sorted: "reachable st \<Longrightarrow> sorted_wrt (<) (map fst (tracksRef st))"
  by (induction rule: reachable.induct)
    (simp_all add: initial_def startSequencer_def stopSequencer_def pauseSequencer_def
      handleSettingsChange_def sorted_assign)

lemma reachable_distinct: "reachable st \<Longrightarrow> distinct (map fst (tracksRef st))"
  using reachable_sorted strict_sorted_iff by blast

lemma forEach_track_Cons:
  "forEach_track t d cur ((k, tr) # trs) lp =
     (if patternBit tr (trackStep cur (steps tr)) \<and> lp k \<noteq> trackStep cur (steps tr)
      then (ScheduleNote k t d # fst (forEach_track t d cur trs (lp(k := trackStep cur (steps tr)))),
            snd (forEach_track t d cur trs (lp(k := trackStep cur (steps tr)))))
      else forEach_track t d cur trs lp)"
  by (simp add: Let_def case_prod_beta)

lemma forEach_track_absent:
  "i \<notin> fst ` set trs \<Longrightarrow>
     notesOf i (fst (forEach_track t d cur trs lp)) = [] \<and> snd (forEach_track t d cur trs lp) i = lp i"
proof (induction trs arbitrary: lp)
  case Nil
  then show ?case by (simp add: notesOf_def)
next
  case (Cons a trs)
  obtain k tr where a: "a = (k, tr)" by (cases a)
  from Cons.prems have ik: "i \<noteq> k" and i: "i \<notin> fst ` set trs" by (auto simp: a)
  show ?case
    unfolding a forEach_track_Cons using Cons.IH[OF i] ik by (simp add: notesOf_def)
qed

lemma forEach_track_for:
  assumes "distinct (map fst trs)"
  shows "notesOf i (fst (forEach_track t d cur trs lp)) =
           (case map_of trs i of None \<Rightarrow> []
            | Some tr \<Rightarrow> if patternBit tr (trackStep cur (steps tr)) \<and> lp i \<noteq> trackStep cur (steps tr)
                         then [ScheduleNote i t d] else [])
         \<and> snd (forEach_track t d cur trs lp) i =
           (case map_of trs i of None \<Rightarrow> lp i
            | Some tr \<Rightarrow> if patternBit tr (trackStep cur (steps tr)) \<and> lp i \<noteq> trackStep cur (steps tr)
                         then trackStep cur (steps tr) else lp i)"
  using assms
proof (induction trs arbitrary: lp)
  case Nil
  then show ?case by (simp add: notesOf_def)
next
  case (Cons a trs)
  obtain k tr where a: "a = (k, tr)" by (cases a)
  from Cons.prems have d: "distinct (map fst trs)" and k: "k \<notin> fst ` set trs" by (auto simp: a)
  show ?case
  proof (cases "i = k")
    case True
    show ?thesis
      unfolding a forEach_track_Cons True using forEach_track_absent[OF k]
      by (simp add: notesOf_def)
  next
    case False
    show ?thesis
      unfolding a forEach_track_Cons using Cons.IH[OF d] False
      by (simp add: notesOf_def split: option.splits)
  qed
qed

lemma tick_for:
  assumes "distinct (map fst (tracksRef st))"
  shows "notesOf i (fst (tick t d st)) =
           (case map_of (tracksRef st) i of None \<Rightarrow> []
            | Some tr \<Rightarrow>
                if patternBit tr (trackStep (currentStepRef st) (steps tr)) \<and>
                   lastPlayedStepRef st i \<noteq> trackStep (currentStepRef st) (steps tr)
                then [ScheduleNote i t d] else [])"
    and "lastPlayedStepRef (snd (tick t d st)) i =
           (case map_of (tracksRef st) i of None \<Rightarrow> lastPlayedStepRef st i
            | Some tr \<Rightarrow>
                if patternBit tr (trackStep (currentStepRef st) (steps tr)) \<and>
                   lastPlayedStepRef st i \<noteq> trackStep (currentStepRef st) (steps tr)
                then trackStep (currentStepRef st) (steps tr) else lastPlayedStepRef st i)"
  using forEach_track_for[OF assms, of i t d "currentStepRef st" "lastPlayedStepRef st"]
  by (simp_all add: tick_def Let_def case_prod_beta)

lemma tick_currentStepRef [simp]:
  "currentStepRef (snd (tick t d st)) = (currentStepRef st + 1) mod 32"
  by (simp add: tick_def Let_def case_prod_beta)

lemma tick_transport [simp]: "transport (snd (tick t d st)) = transport st"
  by (simp add: tick_def Let_def case_prod_beta)

lemma ticks_currentStepRef:
  "currentStepRef st < 32 \<Longrightarrow>
   currentStepRef (snd (ticks ts d st)) = (currentStepRef st + length ts) mod 32"
proof (induction ts arbitrary: st)
  case Nil
  then show ?case by simp
next
  case (Cons a ts)
  then show ?case by (simp add: case_prod_beta Let_def mod_simps)
qed

lemma inactive_keeps_lastPlayed:
  assumes "reachable st" and "map_of (tracksRef st) i = Some tr"
    and "\<not> patternBit tr (trackStep (currentStepRef st) (steps tr))"
  shows "lastPlayedStepRef (snd (tick t d st)) i = lastPlayedStepRef st i"
    and "notesOf i (fst (tick t d st)) = []"
  using assms(2,3) by (simp_all add: tick_for[OF reachable_distinct[OF assms(1)]])

lemma demo_track: "trackSettings 2 1 0 = \<lparr>steps = 2, pulses = 1, pattern = [True, False], patternLength = 2\<rparr>"
  using generatePattern_2_1_0 by (simp add: trackSettings_def newPattern_def)

lemma default_track: "trackSettings 16 4 0 = \<lparr>steps = 16, pulses = 4,
    pattern = [True, False, False, False, True, False, False, False,
               True, False, False, False, True, False, False, False], patternLength = 16\<rparr>"
  using generatePattern_16_4_0 by (simp add: trackSettings_def newPattern_def)

lemma demo_tracks: "tracksRef demo = [(1, trackSettings 2 1 0), (2, trackSettings 16 4 0)]"
  by (simp add: demo_def startSequencer_def handleSettingsChange_def initial_def)

lemma demo_state: "currentStepRef demo = 0" "lastPlayedStepRef demo = Map.empty"
  "transport demo = Started"
  by (simp_all add: demo_def startSequencer_def handleSettingsChange_def initial_def)

lemma reachable_demo: "reachable demo"
  unfolding demo_def by (intro reachable.intros)

text \<open>
  Claim C3. Two consecutive ticks whose master steps map to the same local step of a track
  schedule at most one note for it: once the first has fired, \<^verbatim>\<open>lastPlayedStepRef\<close> holds
  that local step and the condition of the second is false.
\<close>

theorem dedup_same_local_step:
  assumes "reachable st"
    and "map_of (tracksRef st) i = Some tr"
    and "trackStep ((currentStepRef st + 1) mod 32) (steps tr) = trackStep (currentStepRef st) (steps tr)"
  shows "length (notesOf i (fst (tick t1 d1 st)) @ notesOf i (fst (tick t2 d2 (snd (tick t1 d1 st))))) \<le> 1"
proof -
  have d: "distinct (map fst (tracksRef st))" using assms(1) by (rule reachable_distinct)
  then have d': "distinct (map fst (tracksRef (snd (tick t1 d1 st))))" by simp
  show ?thesis
    using assms(2,3) by (simp add: tick_for[OF d] tick_for[OF d'])
qed

theorem dedup_same_local_step_witness:
  "reachable demo \<and> map_of (tracksRef demo) 2 = Some (trackSettings 16 4 0)
   \<and> trackStep ((currentStepRef demo + 1) mod 32) (steps (trackSettings 16 4 0))
       = trackStep (currentStepRef demo) (steps (trackSettings 16 4 0))
   \<and> length (notesOf 2 (fst (tick 0 1 demo)) @ notesOf 2 (fst (tick 1 1 (snd (tick 0 1 demo))))) \<le> 1"
proof -
  have a: "map_of (tracksRef demo) 2 = Some (trackSettings 16 4 0)" by (simp add: demo_tracks)
  have b: "trackStep ((currentStepRef demo + 1) mod 32) (steps (trackSettings 16 4 0))
       = trackStep (currentStepRef demo) (steps (trackSettings 16 4 0))"
    unfolding default_track by (simp add: demo_state trackStep_range)
  from dedup_same_local_step[OF reachable_demo a b] reachable_demo a b show ?thesis by blast
qed

lemma single_active_silent:
  assumes "distinct (map fst (tracksRef st))" and "map_of (tracksRef st) i = Some tr"
    and "\<And>k. patternBit tr (Some k) \<Longrightarrow> k = a" and "lastPlayedStepRef st i = Some a"
  shows "map (notesOf i) (fst (ticks later d st)) = replicate (length later) []"
  using assms(1,2,4)
proof (induction later arbitrary: st)
  case Nil
  then show ?case by simp
next
  case (Cons t later)
  let ?ts = "trackStep (currentStepRef st) (steps tr)"
  have quiet: "\<not> (patternBit tr ?ts \<and> lastPlayedStepRef st i \<noteq> ?ts)"
  proof (cases ?ts)
    case None
    then show ?thesis by (simp add: patternBit_def)
  next
    case (Some k)
    then show ?thesis using assms(3)[of k] Cons.prems(3) by auto
  qed
  have n: "notesOf i (fst (tick t d st)) = []"
    and l: "lastPlayedStepRef (snd (tick t d st)) i = Some a"
    using quiet Cons.prems by (simp_all add: tick_for[OF Cons.prems(1)])
  have "map (notesOf i) (fst (ticks later d (snd (tick t d st)))) = replicate (length later) []"
    using Cons.prems l by (intro Cons.IH) simp_all
  with n show ?case by (simp add: case_prod_beta Let_def)
qed

text \<open>
  Claim C1, evaluated at track 1 of \<open>demo\<close>, whose pattern has one active step
  (\<open>steps = 2\<close>, \<open>pulses = 1\<close>, pattern \<^verbatim>\<open>[true, false]\<close>). The first tick schedules a
  note for it and records local step \<open>0\<close>. Master steps \<open>16\<close> to \<open>31\<close> map to the
  inactive local step \<open>1\<close>, which leaves the record untouched; master step \<open>0\<close> of
  every later cycle maps to the active local step \<open>0\<close> again, and no later tick, however
  many follow, schedules a note for the track.
\<close>

theorem single_pulse_track_fires_once:
  "map (notesOf 1) (fst (ticks (t # later) d demo)) = [ScheduleNote 1 t d] # replicate (length later) []
   \<and> currentStepRef (snd (ticks (t # later) d demo)) = (1 + length later) mod 32
   \<and> trackStep 16 2 = Some 1 \<and> \<not> patternBit (trackSettings 2 1 0) (Some 1)
   \<and> trackStep 0 2 = Some 0 \<and> patternBit (trackSettings 2 1 0) (Some 0)"
proof -
  let ?st = "snd (tick t d demo)"
  have dist: "distinct (map fst (tracksRef demo))" by (simp add: demo_tracks)
  have tr: "map_of (tracksRef demo) 1 = Some (trackSettings 2 1 0)" by (simp add: demo_tracks)
  have only: "k = 0" if "patternBit (trackSettings 2 1 0) (Some k)" for k
    using that unfolding demo_track by (cases k) (simp_all add: patternBit_def)
  have first: "notesOf 1 (fst (tick t d demo)) = [ScheduleNote 1 t d]"
    and lp: "lastPlayedStepRef ?st 1 = Some 0"
    unfolding tick_for[OF dist] tr demo_track
    by (simp_all add: demo_state trackStep_2 patternBit_def)
  have dist': "distinct (map fst (tracksRef ?st))" using dist by (simp only: tick_tracksRef)
  have tr': "map_of (tracksRef ?st) 1 = Some (trackSettings 2 1 0)" using tr by (simp only: tick_tracksRef)
  have "map (notesOf 1) (fst (ticks later d ?st)) = replicate (length later) []"
    by (rule single_active_silent[OF dist' tr' only lp])
  with first have a: "map (notesOf 1) (fst (ticks (t # later) d demo))
      = [ScheduleNote 1 t d] # replicate (length later) []"
    by (simp add: case_prod_beta Let_def)
  have b: "currentStepRef (snd (ticks (t # later) d demo)) = (1 + length later) mod 32"
    by (subst ticks_currentStepRef) (simp_all add: demo_state)
  have c: "trackStep 16 2 = Some 1" "trackStep 0 2 = Some 0" by (simp_all add: trackStep_2)
  have e: "\<not> patternBit (trackSettings 2 1 0) (Some 1)" "patternBit (trackSettings 2 1 0) (Some 0)"
    unfolding demo_track by (simp_all add: patternBit_def)
  from a b c e show ?thesis by blast
qed

lemma forEach_track_clean:
  assumes "distinct (map fst trs)" "\<forall>i\<in>fst ` set trs. lp i = None"
  shows "fst (forEach_track t d cur trs lp) =
         map (\<lambda>(i, tr). ScheduleNote i t d)
           (filter (\<lambda>(i, tr). patternBit tr (trackStep cur (steps tr))) trs)"
  using assms
proof (induction trs arbitrary: lp)
  case Nil
  then show ?case by simp
next
  case (Cons a trs)
  obtain k tr where a: "a = (k, tr)" by (cases a)
  from Cons.prems have d: "distinct (map fst trs)" and k: "k \<notin> fst ` set trs"
    and lpk: "lp k = None" and rest: "\<forall>i\<in>fst ` set trs. lp i = None"
    by (auto simp: a)
  have rest': "\<forall>i\<in>fst ` set trs. (lp(k := x)) i = None" for x
    using rest k by auto
  have bit: "patternBit tr ts \<Longrightarrow> ts \<noteq> None" for ts
    by (cases ts) (auto simp: patternBit_def)
  note ih1 = Cons.IH[OF d rest]
  note ih2 = Cons.IH[OF d rest', of "trackStep cur (steps tr)"]
  show ?case
    unfolding a forEach_track_Cons
    using lpk bit[of "trackStep cur (steps tr)"] by (auto simp: ih1 ih2)
qed

lemma ticks_tracksRef: "tracksRef (snd (ticks ts d st)) = tracksRef st"
  by (induction ts arbitrary: st) (simp_all add: case_prod_beta Let_def)

lemma reachable_ticks:
  "reachable st \<Longrightarrow> transport st = Started \<Longrightarrow> reachable (snd (ticks ts d st))"
proof (induction ts arbitrary: st)
  case Nil
  then show ?case by simp
next
  case (Cons t ts)
  have "reachable (snd (tick t d st))" using Cons.prems by (rule reachable_tick)
  moreover have "transport (snd (tick t d st)) = Started" using Cons.prems(2) by simp
  ultimately have "reachable (snd (ticks ts d (snd (tick t d st))))" by (rule Cons.IH)
  then show ?case by (simp add: case_prod_beta Let_def)
qed

text \<open>
  The state of \<open>demo\<close> after five ticks: the master step is \<open>5\<close>, both tracks have fired
  on the first tick and hold local step \<open>0\<close> as their last played step, and a sixth tick
  schedules nothing (track 1 is still on its local step \<open>0\<close>, track 2 is on the inactive
  local step \<open>2\<close>).
\<close>

lemma demo_played:
  "reachable (snd (ticks [0, 1, 2, 3, 4] 1 demo))"
  "currentStepRef (snd (ticks [0, 1, 2, 3, 4] 1 demo)) = 5"
  "tracksRef (snd (ticks [0, 1, 2, 3, 4] 1 demo)) = [(1, trackSettings 2 1 0), (2, trackSettings 16 4 0)]"
  "lastPlayedStepRef (snd (ticks [0, 1, 2, 3, 4] 1 demo)) 1 = Some 0"
  "lastPlayedStepRef (snd (ticks [0, 1, 2, 3, 4] 1 demo)) 2 = Some 0"
  "fst (tick 5 1 (snd (ticks [0, 1, 2, 3, 4] 1 demo))) = []"
proof -
  show "reachable (snd (ticks [0, 1, 2, 3, 4] 1 demo))"
    using reachable_demo demo_state(3) by (rule reachable_ticks)
  show "currentStepRef (snd (ticks [0, 1, 2, 3, 4] 1 demo)) = 5"
    by (subst ticks_currentStepRef) (simp_all add: demo_state)
  show "tracksRef (snd (ticks [0, 1, 2, 3, 4] 1 demo)) = [(1, trackSettings 2 1 0), (2, trackSettings 16 4 0)]"
    unfolding ticks_tracksRef by (rule demo_tracks)
  have st: "demo = \<lparr>isPlaying = True, isPaused = False, currentStep = 0, currentStepRef = 0,
     tracksRef = [(1, trackSettings 2 1 0), (2, trackSettings 16 4 0)],
     lastPlayedStepRef = Map.empty, transport = Started\<rparr>"
    by (simp add: demo_def startSequencer_def handleSettingsChange_def initial_def)
  have lp: "lastPlayedStepRef (snd (ticks [0, 1, 2, 3, 4] 1 demo)) = [1 \<mapsto> 0, 2 \<mapsto> 0]"
    and cs: "currentStepRef (snd (ticks [0, 1, 2, 3, 4] 1 demo)) = 5"
    unfolding st demo_track default_track
    by (simp_all add: tick_def Let_def trackStep_range patternBit_def)
  show "lastPlayedStepRef (snd (ticks [0, 1, 2, 3, 4] 1 demo)) 1 = Some 0"
    "lastPlayedStepRef (snd (ticks [0, 1, 2, 3, 4] 1 demo)) 2 = Some 0"
    unfolding lp by simp_all
  show "fst (tick 5 1 (snd (ticks [0, 1, 2, 3, 4] 1 demo))) = []"
    unfolding tick_def ticks_tracksRef demo_tracks lp cs demo_track default_track
    by (simp add: Let_def trackStep_range patternBit_def)
qed

text \<open>
  Claim C8. \<^verbatim>\<open>stopSequencer\<close> sets the master step to \<open>0\<close> and empties
  \<^verbatim>\<open>lastPlayedStepRef\<close>; \<^verbatim>\<open>startSequencer\<close> keeps both, and the first tick after it
  schedules a note for exactly the tracks whose pattern is active at the local step of master
  step \<open>0\<close>: nothing is suppressed by an older record.
\<close>

theorem stop_then_start_clean:
  assumes "reachable st"
  shows "currentStepRef (stopSequencer st) = 0
    \<and> currentStep (stopSequencer st) = 0
    \<and> lastPlayedStepRef (stopSequencer st) = Map.empty
    \<and> transport (stopSequencer st) = Stopped
    \<and> currentStepRef (startSequencer (stopSequencer st)) = 0
    \<and> lastPlayedStepRef (startSequencer (stopSequencer st)) = Map.empty
    \<and> transport (startSequencer (stopSequencer st)) = Started
    \<and> fst (tick t d (startSequencer (stopSequencer st))) =
        map (\<lambda>(i, tr). ScheduleNote i t d)
          (filter (\<lambda>(i, tr). patternBit tr (trackStep 0 (steps tr))) (tracksRef st))"
proof -
  have "distinct (map fst (tracksRef st))" using assms by (rule reachable_distinct)
  then have "fst (forEach_track t d 0 (tracksRef st) Map.empty) =
        map (\<lambda>(i, tr). ScheduleNote i t d)
          (filter (\<lambda>(i, tr). patternBit tr (trackStep 0 (steps tr))) (tracksRef st))"
    by (rule forEach_track_clean) simp
  then show ?thesis
    by (simp add: stopSequencer_def startSequencer_def tick_def Let_def case_prod_beta)
qed

theorem stop_then_start_clean_witness:
  "reachable (snd (ticks [0, 1, 2, 3, 4] 1 demo))
    \<and> currentStepRef (snd (ticks [0, 1, 2, 3, 4] 1 demo)) = 5
    \<and> lastPlayedStepRef (snd (ticks [0, 1, 2, 3, 4] 1 demo)) 1 = Some 0
    \<and> lastPlayedStepRef (snd (ticks [0, 1, 2, 3, 4] 1 demo)) 2 = Some 0
    \<and> fst (tick 5 1 (snd (ticks [0, 1, 2, 3, 4] 1 demo))) = []
    \<and> currentStepRef (stopSequencer (snd (ticks [0, 1, 2, 3, 4] 1 demo))) = 0
    \<and> lastPlayedStepRef (stopSequencer (snd (ticks [0, 1, 2, 3, 4] 1 demo))) = Map.empty
    \<and> currentStepRef (startSequencer (stopSequencer (snd (ticks [0, 1, 2, 3, 4] 1 demo)))) = 0
    \<and> lastPlayedStepRef (startSequencer (stopSequencer (snd (ticks [0, 1, 2, 3, 4] 1 demo)))) = Map.empty
    \<and> fst (tick 5 1 (startSequencer (stopSequencer (snd (ticks [0, 1, 2, 3, 4] 1 demo)))))
        = [ScheduleNote 1 5 1, ScheduleNote 2 5 1]"
proof -
  let ?st = "snd (ticks [0, 1, 2, 3, 4] 1 demo)"
  have "map (\<lambda>(i, tr). ScheduleNote i (5::rat) (1::rat))
          (filter (\<lambda>(i, tr). patternBit tr (trackStep 0 (steps tr))) (tracksRef ?st))
        = [ScheduleNote 1 5 1, ScheduleNote 2 5 1]"
    unfolding demo_played(3) demo_track default_track
    by (simp add: trackStep_range patternBit_def)
  with stop_then_start_clean[OF demo_played(1), of 5 1] demo_played show ?thesis by simp
qed

text \<open>
  Claim C9. \<^verbatim>\<open>pauseSequencer\<close> and \<^verbatim>\<open>startSequencer\<close> leave the master step and
  \<^verbatim>\<open>lastPlayedStepRef\<close> as they are, so the first tick after a resume is the tick the
  paused state would have run: same notes, master step \<open>k\<close> advanced to \<open>(k + 1) mod 32\<close>.
\<close>

theorem pause_resume_retains:
  "currentStepRef (pauseSequencer st) = currentStepRef st
   \<and> lastPlayedStepRef (pauseSequencer st) = lastPlayedStepRef st
   \<and> currentStepRef (startSequencer st) = currentStepRef st
   \<and> lastPlayedStepRef (startSequencer st) = lastPlayedStepRef st
   \<and> currentStepRef (startSequencer (pauseSequencer st)) = currentStepRef st
   \<and> lastPlayedStepRef (startSequencer (pauseSequencer st)) = lastPlayedStepRef st
   \<and> fst (tick t d (startSequencer (pauseSequencer st))) = fst (tick t d st)
   \<and> currentStepRef (snd (tick t d (startSequencer (pauseSequencer st)))) = (currentStepRef st + 1) mod 32"
  by (simp add: pauseSequencer_def startSequencer_def tick_def Let_def case_prod_beta)

end
